theory Spec2Isabelle
  imports Main "HOL-Library.Word" "HOL-Library.Signed_Division"
begin

unbundle bit_operations_syntax

section \<open>Configuration\<close>

type_synonym u64 = "64 word"
type_synonym u32 = "32 word"
type_synonym u8 = "8 word"

definition WIDTH :: nat where "WIDTH = 7"
definition HEIGHT :: nat where "HEIGHT = 6"
definition MIN_PLY :: int where "MIN_PLY = 15"
definition MAX_PLY :: int where "MAX_PLY = 28"

section \<open>Bitboard constants\<close>

text \<open>The four module-scope tables of the generator, as one record; \<open>init_bitboards\<close>
  is the loop over the columns that fills them.\<close>

record bitboards =
  g_bottom_mask_col :: "u64 list"
  g_column_mask_col :: "u64 list"
  g_bottom_mask :: u64
  g_board_mask :: u64

definition init_step :: "nat \<Rightarrow> bitboards \<Rightarrow> bitboards" where
  "init_step col b =
     (let bc = push_bit (col * (HEIGHT + 1)) (1 :: u64);
          cm = push_bit (col * (HEIGHT + 1)) (push_bit HEIGHT (1 :: u64) - 1)
      in \<lparr> g_bottom_mask_col = (g_bottom_mask_col b)[col := bc],
           g_column_mask_col = (g_column_mask_col b)[col := cm],
           g_bottom_mask = g_bottom_mask b OR bc,
           g_board_mask = g_board_mask b OR cm \<rparr>)"

definition init_bitboards :: bitboards where
  "init_bitboards =
     fold init_step [0..<WIDTH]
       \<lparr> g_bottom_mask_col = replicate WIDTH 0, g_column_mask_col = replicate WIDTH 0,
         g_bottom_mask = 0, g_board_mask = 0 \<rparr>"

definition bottom_mask_col :: "nat \<Rightarrow> u64" where
  "bottom_mask_col col = g_bottom_mask_col init_bitboards ! col"

definition column_mask_col :: "nat \<Rightarrow> u64" where
  "column_mask_col col = g_column_mask_col init_bitboards ! col"

definition bottom_mask :: u64 where
  "bottom_mask = g_bottom_mask init_bitboards"

definition board_mask :: u64 where
  "board_mask = g_board_mask init_bitboards"

definition column_order :: "nat list" where
  "column_order = [3, 2, 4, 1, 5, 0, 6]"

section \<open>Positions\<close>

record Position =
  current :: u64
  mask :: u64
  ply :: int

definition empty_position :: Position where
  "empty_position = \<lparr> current = 0, mask = 0, ply = 0 \<rparr>"

definition top_mask_col :: "nat \<Rightarrow> u64" where
  "top_mask_col col = push_bit ((HEIGHT - 1) + col * (HEIGHT + 1)) 1"

definition can_play :: "Position \<Rightarrow> nat \<Rightarrow> bool" where
  "can_play p col \<longleftrightarrow> mask p AND top_mask_col col = 0"

definition move_bit :: "Position \<Rightarrow> nat \<Rightarrow> u64" where
  "move_bit p col = (mask p + bottom_mask_col col) AND column_mask_col col"

definition play_col :: "Position \<Rightarrow> nat \<Rightarrow> Position" where
  "play_col p col =
     (let move = move_bit p col
      in \<lparr> current = current p XOR mask p, mask = mask p OR move, ply = ply p + 1 \<rparr>)"

definition compute_winning_positions :: "u64 \<Rightarrow> u64 \<Rightarrow> u64" where
  "compute_winning_positions position msk =
     (let r = push_bit 1 position AND push_bit 2 position AND push_bit 3 position;
          p = push_bit (HEIGHT + 1) position AND push_bit (2 * (HEIGHT + 1)) position;
          r = r OR (p AND push_bit (3 * (HEIGHT + 1)) position);
          r = r OR (p AND drop_bit (HEIGHT + 1) position);
          p = drop_bit (HEIGHT + 1) position AND drop_bit (2 * (HEIGHT + 1)) position;
          r = r OR (p AND push_bit (HEIGHT + 1) position);
          r = r OR (p AND drop_bit (3 * (HEIGHT + 1)) position);
          p = push_bit HEIGHT position AND push_bit (2 * HEIGHT) position;
          r = r OR (p AND push_bit (3 * HEIGHT) position);
          r = r OR (p AND drop_bit HEIGHT position);
          p = drop_bit HEIGHT position AND drop_bit (2 * HEIGHT) position;
          r = r OR (p AND push_bit HEIGHT position);
          r = r OR (p AND drop_bit (3 * HEIGHT) position);
          p = push_bit (HEIGHT + 2) position AND push_bit (2 * (HEIGHT + 2)) position;
          r = r OR (p AND push_bit (3 * (HEIGHT + 2)) position);
          r = r OR (p AND drop_bit (HEIGHT + 2) position);
          p = drop_bit (HEIGHT + 2) position AND drop_bit (2 * (HEIGHT + 2)) position;
          r = r OR (p AND push_bit (HEIGHT + 2) position);
          r = r OR (p AND drop_bit (3 * (HEIGHT + 2)) position)
      in r AND (board_mask XOR msk))"

definition can_win_next :: "Position \<Rightarrow> bool" where
  "can_win_next p =
     (let winning = compute_winning_positions (current p) (mask p);
          possible = (mask p + bottom_mask) AND board_mask
      in winning AND possible \<noteq> 0)"

definition opponent_winning_positions :: "Position \<Rightarrow> u64" where
  "opponent_winning_positions p = compute_winning_positions (current p XOR mask p) (mask p)"

definition non_losing_moves :: "Position \<Rightarrow> u64" where
  "non_losing_moves p =
     (let possible = (mask p + bottom_mask) AND board_mask;
          opponent_wins = opponent_winning_positions p;
          forced = possible AND opponent_wins
      in if forced \<noteq> 0
         then (if forced AND (forced - 1) \<noteq> 0 then 0
               else forced AND NOT (drop_bit 1 opponent_wins))
         else possible AND NOT (drop_bit 1 opponent_wins))"

definition position_key :: "Position \<Rightarrow> u64" where
  "position_key p = current p + mask p"

definition popcount :: "u64 \<Rightarrow> nat" where
  "popcount w = length (filter (bit w) [0..<64])"

definition move_score :: "Position \<Rightarrow> u64 \<Rightarrow> int" where
  "move_score p move =
     (let new_pos = current p OR move;
          threats = compute_winning_positions new_pos (mask p)
      in int (popcount threats))"

section \<open>The data-model invariants\<close>

definition cell :: "nat \<Rightarrow> nat \<Rightarrow> nat" where
  "cell col row = row + col * (HEIGHT + 1)"

definition invariants :: "Position \<Rightarrow> bool" where
  "invariants p \<longleftrightarrow>
     current p AND NOT (mask p) = 0
     \<and> mask p AND NOT board_mask = 0
     \<and> current p AND NOT board_mask = 0
     \<and> (\<forall>c \<in> {0..<WIDTH}. \<not> bit (mask p) (cell c HEIGHT) \<and> \<not> bit (current p) (cell c HEIGHT))
     \<and> int (popcount (mask p)) = ply p
     \<and> (\<forall>c \<in> {0..<WIDTH}. \<forall>r \<in> {1..<HEIGHT}.
           bit (mask p) (cell c r) \<longrightarrow> bit (mask p) (cell c (r - 1)))"

inductive reachable :: "Position \<Rightarrow> bool" where
  reachable_empty: "reachable empty_position"
| reachable_play: "reachable p \<Longrightarrow> col < WIDTH \<Longrightarrow> can_play p col \<Longrightarrow> reachable (play_col p col)"

section \<open>Transposition table\<close>

text \<open>C's \<open>int\<close> division truncates towards zero: it is \<open>sdiv\<close> on \<open>int\<close>. The scores
  and plies stay far inside the range of a 32-bit \<open>int\<close>, so they are modelled as \<open>int\<close>.\<close>

definition TT_SIZE :: nat where "TT_SIZE = 2 ^ 23"
definition TT_MASK :: u64 where "TT_MASK = of_nat (TT_SIZE - 1)"
definition MIN_SCORE :: int where "MIN_SCORE = (- (int WIDTH * int HEIGHT)) sdiv 2 + 3"
definition MAX_SCORE :: int where "MAX_SCORE = (int WIDTH * int HEIGHT + 1) sdiv 2 - 3"

record TTEntry =
  key :: u64
  val :: u8

text \<open>The table is an array of \<open>TT_SIZE\<close> entries, read and written at \<open>key & TT_MASK\<close>
  only; it is a function from the index.\<close>

type_synonym ttable = "nat \<Rightarrow> TTEntry"

definition tt_zero :: ttable where
  "tt_zero = (\<lambda>_. \<lparr> key = 0, val = 0 \<rparr>)"

definition tt_store :: "ttable \<Rightarrow> u64 \<Rightarrow> int \<Rightarrow> ttable" where
  "tt_store t k v =
     (let idx = unat (k AND TT_MASK)
      in t(idx := \<lparr> key = k, val = word_of_int (v - MIN_SCORE + 1) \<rparr>))"

definition tt_probe :: "ttable \<Rightarrow> u64 \<Rightarrow> int option" where
  "tt_probe t k =
     (let idx = unat (k AND TT_MASK)
      in if key (t idx) = k \<and> val (t idx) \<noteq> 0
         then Some (sint (val (t idx)) + MIN_SCORE - 1) else None)"

section \<open>Solver\<close>

record MoveEntry =
  move :: u64
  score :: int

definition collect_moves :: "Position \<Rightarrow> u64 \<Rightarrow> MoveEntry list" where
  "collect_moves p possible =
     fold (\<lambda>col moves.
             let mv = possible AND column_mask_col col
             in if mv \<noteq> 0 then moves @ [\<lparr> move = mv, score = move_score p mv \<rparr>] else moves)
          column_order []"

definition sort_moves :: "MoveEntry list \<Rightarrow> MoveEntry list" where
  "sort_moves moves =
     fold (\<lambda>i ms.
             fold (\<lambda>j ms. if score (ms ! j) > score (ms ! i)
                           then ms[i := ms ! j, j := ms ! i] else ms)
                  [i + 1..<length moves] ms)
          [0..<length moves - 1] moves"

text \<open>The search loop of \<open>negamax\<close> carries the table, \<open>best\<close>, \<open>alpha\<close> and whether
  the \<open>break\<close> was taken.\<close>

function negamax :: "ttable \<Rightarrow> Position \<Rightarrow> int \<Rightarrow> int \<Rightarrow> ttable \<times> int" where
  "negamax t p alpha beta =
     (if can_win_next p then (t, (int WIDTH * int HEIGHT + 1 - ply p) sdiv 2)
      else let possible = non_losing_moves p in
      if possible = 0 then (t, (- (int WIDTH * int HEIGHT - ply p)) sdiv 2)
      else if ply p \<ge> int WIDTH * int HEIGHT - 2 then (t, 0)
      else let mn = (- (int WIDTH * int HEIGHT - 2 - ply p)) sdiv 2 in
      if alpha < mn \<and> mn \<ge> beta then (t, mn)
      else let alpha = (if alpha < mn then mn else alpha);
               mx = (int WIDTH * int HEIGHT - 1 - ply p) sdiv 2 in
      if beta > mx \<and> alpha \<ge> mx then (t, mx)
      else let beta = (if beta > mx then mx else beta);
               k = position_key p;
               hit = tt_probe t k in
      if hit \<noteq> None \<and> (the hit \<ge> beta \<or> the hit \<le> alpha) then (t, the hit)
      else let moves = sort_moves (collect_moves p possible);
               (t, best, alpha, stop) =
                 fold (\<lambda>m (t, best, alpha, stop).
                         if stop then (t, best, alpha, stop)
                         else let child = \<lparr> current = current p XOR mask p,
                                             mask = mask p OR move m,
                                             ply = ply p + 1 \<rparr>;
                                  (t, r) = negamax t child (- beta) (- alpha);
                                  score = - r;
                                  best = (if score > best then score else best);
                                  alpha = (if score > alpha then score else alpha)
                              in (t, best, alpha, alpha \<ge> beta))
                      moves (t, - (int WIDTH) * int HEIGHT, alpha, False)
           in (tt_store t k best, best))"
  by pat_completeness auto
termination
  by (relation "measure (\<lambda>(t, p, alpha, beta). nat (int WIDTH * int HEIGHT - 2 - ply p))") auto

declare negamax.simps [simp del]

lemma solve_med_bounds:
  fixes mn mx :: int
  assumes "mn < mx"
  defines "med0 \<equiv> mn + (mx - mn) sdiv 2"
  defines "med \<equiv> (if med0 \<le> 0 \<and> mn sdiv 2 < med0 then mn sdiv 2
                   else if med0 \<ge> 0 \<and> mx sdiv 2 > med0 then mx sdiv 2 else med0)"
  shows "mn \<le> med \<and> med < mx"
proof -
  have "mn \<le> med0 \<and> med0 < mx"
    using assms(1) by (simp add: med0_def signed_divide_int_def sgn_if)
  then show ?thesis
    by (auto simp add: med_def signed_divide_int_def sgn_if)
qed

function solve_loop :: "ttable \<Rightarrow> Position \<Rightarrow> int \<Rightarrow> int \<Rightarrow> ttable \<times> int" where
  "solve_loop t p mn mx =
     (if mn < mx
      then let med = mn + (mx - mn) sdiv 2;
               med = (if med \<le> 0 \<and> mn sdiv 2 < med then mn sdiv 2
                      else if med \<ge> 0 \<and> mx sdiv 2 > med then mx sdiv 2 else med);
               (t, r) = negamax t p med (med + 1)
           in if r \<le> med then solve_loop t p mn r else solve_loop t p r mx
      else (t, mn))"
  by pat_completeness auto
termination
proof (relation "measure (\<lambda>(t, p, mn, mx). nat (mx - mn))", goal_cases)
  case 1
  show ?case by simp
next
  case (2 t p mn mx med0 med x t' r)
  with solve_med_bounds [of mn mx] show ?case by auto
next
  case (3 t p mn mx med0 med x t' r)
  with solve_med_bounds [of mn mx] show ?case by auto
qed

declare solve_loop.simps [simp del]

definition solve :: "ttable \<Rightarrow> Position \<Rightarrow> ttable \<times> int" where
  "solve t p =
     (if can_win_next p then (t, (int WIDTH * int HEIGHT + 1 - ply p) sdiv 2)
      else solve_loop t p ((- (int WIDTH * int HEIGHT - ply p)) sdiv 2)
                          ((int WIDTH * int HEIGHT + 1 - ply p) sdiv 2))"

section \<open>Classifier\<close>

definition is_obvious_move :: "Position \<Rightarrow> nat \<Rightarrow> bool" where
  "is_obvious_move p col =
     (let my_winning = compute_winning_positions (current p) (mask p);
          mv = move_bit p col
      in if my_winning AND mv \<noteq> 0 then True
         else let opp_winning = opponent_winning_positions p
              in if opp_winning AND mv \<noteq> 0 then True else False)"

text \<open>The statistics counters and the progress line only feed the console output and are
  left out. The loop over the columns carries the table and \<open>winning_cols\<close>;
  \<open>win_count\<close> is its length (the draw and loss counters are never read).\<close>

definition analyze_position :: "ttable \<Rightarrow> Position \<Rightarrow> ttable \<times> int" where
  "analyze_position t p =
     (if ply p < MIN_PLY \<or> ply p > MAX_PLY then (t, - 1)
      else if can_win_next p then (t, - 1)
      else let possible = non_losing_moves p in
      if possible = 0 then (t, - 1)
      else let (t, winning_cols) =
                 fold (\<lambda>col (t, winning_cols).
                         if \<not> can_play p col then (t, winning_cols)
                         else if possible AND column_mask_col col = 0 then (t, winning_cols)
                         else let child = play_col p col;
                                  (t, r) = solve t child;
                                  score = - r
                              in if score > 0 then (t, winning_cols @ [col])
                                 else (t, winning_cols))
                      [0..<WIDTH] (t, [])
           in if length winning_cols = 1
              then let winning_col = winning_cols ! 0
                   in if \<not> is_obvious_move p winning_col then (t, int winning_col)
                      else (t, - 1)
              else (t, - 1))"

section \<open>Enumerator\<close>

record CriticalEntry =
  hash :: u64
  winning_col :: u8

text \<open>Whether an allocation or the opening of the output file succeeds is not decided by
  the program: the requests are answered by the environment (the allocations by the number
  of elements asked for).\<close>

record environment =
  calloc_tt_ok :: bool
  realloc_list_ok :: "nat \<Rightarrow> bool"
  calloc_table_ok :: "nat \<Rightarrow> bool"
  fopen_ok :: bool

text \<open>A call of \<open>exit\<close>: the line written to standard error and the exit code.\<close>

datatype fatal = Fatal string int

record gen_state =
  tt :: ttable
  critical_list :: "CriticalEntry list"
  critical_capacity :: nat

definition tt_init :: "environment \<Rightarrow> fatal + ttable" where
  "tt_init a =
     (if \<not> calloc_tt_ok a then Inl (Fatal ''Failed to allocate transposition table!'' 1)
      else Inr tt_zero)"

definition add_critical :: "environment \<Rightarrow> gen_state \<Rightarrow> u64 \<Rightarrow> int \<Rightarrow> fatal + gen_state" where
  "add_critical a s h col =
     (let e = \<lparr> hash = h, winning_col = word_of_int col \<rparr>
      in if length (critical_list s) \<ge> critical_capacity s
         then let cap = (if critical_capacity s \<noteq> 0 then critical_capacity s * 2 else 1000000)
              in if \<not> realloc_list_ok a cap then Inl (Fatal ''Failed to allocate critical list!'' 1)
                 else Inr (s\<lparr> critical_capacity := cap, critical_list := critical_list s @ [e] \<rparr>)
         else Inr (s\<lparr> critical_list := critical_list s @ [e] \<rparr>))"

definition analyze_step :: "environment \<Rightarrow> Position \<Rightarrow> gen_state \<Rightarrow> fatal + gen_state" where
  "analyze_step a p s =
     (if ply p \<ge> MIN_PLY \<and> ply p \<le> MAX_PLY
      then let (t, critical_col) = analyze_position (tt s) p;
               s = s\<lparr> tt := t \<rparr>
           in if critical_col \<ge> 0 then add_critical a s (position_key p) critical_col
              else Inr s
      else Inr s)"

function generate_positions :: "environment \<Rightarrow> Position \<Rightarrow> int \<Rightarrow> gen_state \<Rightarrow> fatal + gen_state" where
  "generate_positions a p depth s =
     (case analyze_step a p s of
        Inl f \<Rightarrow> Inl f
      | Inr s \<Rightarrow>
          if ply p \<ge> MAX_PLY then Inr s
          else if can_win_next p then Inr s
          else fold (\<lambda>col r.
                       case r of
                         Inl f \<Rightarrow> Inl f
                       | Inr s \<Rightarrow>
                           if \<not> can_play p col then Inr s
                           else generate_positions a (play_col p col) (depth + 1) s)
                    [0..<WIDTH] (Inr s))"
  by pat_completeness auto
termination
  by (relation "measure (\<lambda>(a, p, depth, s). nat (MAX_PLY - ply p))")
     (auto simp add: play_col_def Let_def)

declare generate_positions.simps [simp del]

section \<open>Serializer\<close>

text \<open>Sizes and indices are \<open>size_t\<close> in the source. They are modelled as \<open>nat\<close>: the
  entry count is the length of a buffer held in memory, far below the range where
  \<open>2 * count\<close>, the search for the next prime or \<open>i * i\<close> could wrap around.\<close>

function is_prime_loop :: "nat \<Rightarrow> nat \<Rightarrow> bool" where
  "is_prime_loop n i =
     (if i * i \<le> n then (if n mod i = 0 then False else is_prime_loop n (i + 2)) else True)"
  by pat_completeness auto
termination
proof (relation "measure (\<lambda>(n, i). n + 2 - i)", goal_cases)
  case 1
  show ?case by simp
next
  case (2 n i)
  have "i \<le> i * i" by (cases i) auto
  with 2 have "i \<le> n" by linarith
  then show ?case by auto
qed

declare is_prime_loop.simps [simp del]

definition is_prime :: "nat \<Rightarrow> bool" where
  "is_prime n =
     (if n < 2 then False
      else if n = 2 then True
      else if n mod 2 = 0 then False
      else is_prime_loop n 3)"

definition prime_number :: "nat \<Rightarrow> bool" where
  "prime_number n \<longleftrightarrow> 1 < n \<and> (\<forall>d. d dvd n \<longrightarrow> d = 1 \<or> d = n)"

lemma loop_stop: "\<not> i * i \<le> n \<Longrightarrow> is_prime_loop n i"
  by (subst is_prime_loop.simps) simp

lemma loop_div: "i * i \<le> n \<Longrightarrow> n mod i = 0 \<Longrightarrow> \<not> is_prime_loop n i"
  by (subst is_prime_loop.simps) simp

lemma loop_step: "i * i \<le> n \<Longrightarrow> n mod i \<noteq> 0 \<Longrightarrow> is_prime_loop n i = is_prime_loop n (i + 2)"
  by (subst is_prime_loop.simps) simp

definition no_divisor_from :: "nat \<Rightarrow> nat \<Rightarrow> bool" where
  "no_divisor_from n i \<longleftrightarrow> (\<forall>j. j * j \<le> n \<and> i \<le> j \<and> even (j - i) \<longrightarrow> n mod j \<noteq> 0)"

lemma is_prime_loop_iff: "is_prime_loop n i \<longleftrightarrow> no_divisor_from n i"
proof (induction n i rule: is_prime_loop.induct)
  case (1 n i)
  show ?case
  proof (cases "i * i \<le> n")
    case False
    have "\<not> j * j \<le> n" if "i \<le> j" for j
    proof -
      have "i * i \<le> j * j" using that by (simp add: mult_le_mono)
      with False show ?thesis by linarith
    qed
    then have "no_divisor_from n i"
      unfolding no_divisor_from_def by blast
    moreover have "is_prime_loop n i"
      using False by (rule loop_stop)
    ultimately show ?thesis by simp
  next
    case True
    show ?thesis
    proof (cases "n mod i = 0")
      case z: True
      have "\<not> no_divisor_from n i"
        unfolding no_divisor_from_def using True z by (intro notI) (drule spec [of _ i], simp)
      moreover have "\<not> is_prime_loop n i"
        using True z by (rule loop_div)
      ultimately show ?thesis by simp
    next
      case nz: False
      have step: "is_prime_loop n i = is_prime_loop n (i + 2)"
        using True nz by (rule loop_step)
      have "no_divisor_from n i \<longleftrightarrow> no_divisor_from n (i + 2)"
        unfolding no_divisor_from_def
      proof (intro iffI allI impI)
        fix j
        assume a: "\<forall>j. j * j \<le> n \<and> i \<le> j \<and> even (j - i) \<longrightarrow> n mod j \<noteq> 0"
          and b: "j * j \<le> n \<and> i + 2 \<le> j \<and> even (j - (i + 2))"
        from b have "i \<le> j \<and> even (j - i)" by auto
        with a b show "n mod j \<noteq> 0" by blast
      next
        fix j
        assume a: "\<forall>j. j * j \<le> n \<and> i + 2 \<le> j \<and> even (j - (i + 2)) \<longrightarrow> n mod j \<noteq> 0"
          and b: "j * j \<le> n \<and> i \<le> j \<and> even (j - i)"
        show "n mod j \<noteq> 0"
        proof (cases "j = i")
          case True
          with nz show ?thesis by simp
        next
          case False
          with b have "i + 2 \<le> j \<and> even (j - (i + 2))" by (cases "j = i + 1") auto
          with a b show ?thesis by blast
        qed
      qed
      moreover have "is_prime_loop n (i + 2) \<longleftrightarrow> no_divisor_from n (i + 2)"
        using True nz by (rule 1)
      ultimately show ?thesis using step by simp
    qed
  qed
qed

lemma small_divisor:
  assumes "1 < n" and "\<not> prime_number n"
  shows "\<exists>d. 1 < d \<and> d * d \<le> n \<and> d dvd n"
proof -
  from assms obtain d where d: "d dvd n" "d \<noteq> 1" "d \<noteq> n"
    unfolding prime_number_def by blast
  then obtain e where e: "n = d * e"
    unfolding dvd_def by blast
  have "d \<noteq> 0" using e assms(1) by (intro notI) simp
  with d have d1: "1 < d" by simp
  have "e \<noteq> 0" using e assms(1) by (intro notI) simp
  moreover have "e \<noteq> 1" using e d by (intro notI) simp
  ultimately have e1: "1 < e" by simp
  show ?thesis
  proof (cases "d \<le> e")
    case True
    then have "d * d \<le> d * e" by simp
    with e d1 d(1) show ?thesis by blast
  next
    case False
    then have "e * e \<le> d * e" by simp
    moreover have "e dvd n" using e by simp
    ultimately show ?thesis using e e1 by blast
  qed
qed

lemma prime_number_2: "prime_number 2"
proof -
  have "d = 1 \<or> d = 2" if "d dvd 2" for d :: nat
  proof -
    from that have "d \<le> 2" by (rule dvd_imp_le) simp
    moreover from that have "d \<noteq> 0" by (intro notI) simp
    ultimately show ?thesis by linarith
  qed
  then show ?thesis
    unfolding prime_number_def by simp
qed

lemma is_prime_iff: "is_prime n \<longleftrightarrow> prime_number n"
proof -
  consider "n < 2" | "n = 2" | "2 < n" "even n" | "2 < n" "odd n"
    by linarith
  then show ?thesis
  proof cases
    case 1
    then show ?thesis by (simp add: is_prime_def prime_number_def)
  next
    case 2
    then show ?thesis by (simp add: is_prime_def prime_number_2)
  next
    case 3
    then have "\<not> prime_number n"
      unfolding prime_number_def by (intro notI) (elim conjE, drule spec [of _ 2], simp)
    with 3 show ?thesis by (simp add: is_prime_def)
  next
    case 4
    then have eq: "is_prime n = no_divisor_from n 3"
      by (simp add: is_prime_def is_prime_loop_iff odd_iff_mod_2_eq_one)
    have "no_divisor_from n 3 \<longleftrightarrow> prime_number n"
    proof
      assume nd: "no_divisor_from n 3"
      show "prime_number n"
      proof (rule ccontr)
        assume "\<not> prime_number n"
        with 4 obtain d where d: "1 < d" "d * d \<le> n" "d dvd n"
          using small_divisor [of n] by auto
        have "odd d"
        proof
          assume "even d"
          with d(3) have "even n" using dvd_trans by blast
          with 4 show False by simp
        qed
        with d(1) have "3 \<le> d \<and> even (d - 3)"
          by (cases "d = 2") auto
        with nd d(2) have "n mod d \<noteq> 0"
          unfolding no_divisor_from_def by blast
        with d(3) show False by simp
      qed
    next
      assume pr: "prime_number n"
      show "no_divisor_from n 3"
        unfolding no_divisor_from_def
      proof (intro allI impI)
        fix j
        assume j: "j * j \<le> n \<and> 3 \<le> j \<and> even (j - 3)"
        then have "j < j * j" by simp
        with j have "j \<noteq> 1 \<and> j \<noteq> n" by linarith
        with pr have "\<not> j dvd n"
          unfolding prime_number_def by blast
        then show "n mod j \<noteq> 0" by (simp add: dvd_eq_mod_eq_0)
      qed
    qed
    with eq show ?thesis by simp
  qed
qed

lemma prime_factor: "1 < n \<Longrightarrow> \<exists>p. prime_number p \<and> p dvd n"
proof (induction n rule: less_induct)
  case (less n)
  show ?case
  proof (cases "prime_number n")
    case True
    then show ?thesis by (intro exI [of _ n]) simp
  next
    case False
    with less.prems obtain d where d: "1 < d" "d * d \<le> n" "d dvd n"
      using small_divisor [of n] by auto
    from d(1) have "d < d * d" by simp
    with d(2) have "d < n" by linarith
    with less.IH d(1) obtain p where "prime_number p" "p dvd d" by blast
    with d(3) show ?thesis using dvd_trans by blast
  qed
qed

lemma prime_above: "\<exists>p. n \<le> p \<and> is_prime p"
proof -
  have "1 < fact n + (1 :: nat)"
    by (simp add: fact_gt_zero)
  then obtain p where p: "prime_number p" "p dvd fact n + 1"
    using prime_factor by blast
  have "n < p"
  proof (rule ccontr)
    assume "\<not> n < p"
    moreover from p(1) have "1 \<le> p" by (simp add: prime_number_def)
    ultimately have "p dvd fact n" by (intro dvd_fact) auto
    with p(2) have "p dvd (fact n + 1) - fact n" by (intro dvd_diff_nat)
    then have "p dvd 1" by simp
    with p(1) show False by (simp add: prime_number_def)
  qed
  with p(1) show ?thesis
    using is_prime_iff less_imp_le by blast
qed

function next_prime :: "nat \<Rightarrow> nat" where
  "next_prime n = (if \<not> is_prime n then next_prime (n + 1) else n)"
  by pat_completeness auto
termination
proof (relation "measure (\<lambda>n. (LEAST q. n \<le> q \<and> is_prime q) - n)", goal_cases)
  case 1
  show ?case by simp
next
  case (2 n)
  let ?L = "LEAST q. n \<le> q \<and> is_prime q"
  have L: "n \<le> ?L \<and> is_prime ?L"
    using prime_above [of n] by (rule LeastI_ex)
  with 2 have "?L \<noteq> n" by (intro notI) simp
  with L have lt: "n < ?L" by simp
  have "(n + 1 \<le> q \<and> is_prime q) = (n \<le> q \<and> is_prime q)" for q
    using 2 by (cases "q = n") auto
  then have "(LEAST q. n + 1 \<le> q \<and> is_prime q) = ?L" by simp
  with lt show ?case by simp
qed

declare next_prime.simps [simp del]

definition table_size_of :: "nat \<Rightarrow> nat" where
  "table_size_of critical_count = next_prime (critical_count * 2)"

record hash_table =
  keys :: "u32 list"
  vals :: "u8 list"

text \<open>The linear probe of the insertion. It ends only at an empty slot, so it is a partial
  function: \<open>None\<close> stands for a probe that never ends.\<close>

partial_function (option) probe_slot :: "u32 list \<Rightarrow> nat \<Rightarrow> nat option" where
  "probe_slot ks idx =
     (if ks ! idx \<noteq> 0 then probe_slot ks ((idx + 1) mod length ks) else Some idx)"

definition partial_key_of :: "u64 \<Rightarrow> u32" where
  "partial_key_of h = ucast (drop_bit 16 h)"

definition insert_entry :: "hash_table \<Rightarrow> CriticalEntry \<Rightarrow> hash_table option" where
  "insert_entry tbl e =
     (let partial_key = partial_key_of (hash e);
          idx = unat (hash e) mod length (keys tbl)
      in case probe_slot (keys tbl) idx of
           None \<Rightarrow> None
         | Some idx \<Rightarrow> Some \<lparr> keys = (keys tbl)[idx := partial_key],
                               vals = (vals tbl)[idx := winning_col e] \<rparr>)"

definition build_table :: "nat \<Rightarrow> CriticalEntry list \<Rightarrow> hash_table option" where
  "build_table table_size entries =
     fold (\<lambda>e r. case r of None \<Rightarrow> None | Some tbl \<Rightarrow> insert_entry tbl e) entries
          (Some \<lparr> keys = replicate table_size 0, vals = replicate table_size 0 \<rparr>)"

record db_file =
  header :: "u8 list"
  tsize :: u32
  file_keys :: "u32 list"
  file_vals :: "u8 list"

text \<open>\<open>save_database\<close> returns the lines it wrote to standard error and the file it wrote,
  if any; the outer \<open>None\<close> is an insertion that never ends.\<close>

definition save_database :: "environment \<Rightarrow> CriticalEntry list \<Rightarrow> (string list \<times> db_file option) option" where
  "save_database env entries =
     (if length entries = 0 then Some ([], None)
      else let table_size = table_size_of (length entries)
           in if \<not> calloc_table_ok env table_size
              then Some ([''Failed to allocate hash table!''], None)
              else case build_table table_size entries of
                     None \<Rightarrow> None
                   | Some tbl \<Rightarrow>
                       if \<not> fopen_ok env
                       then Some ([''Failed to open critical.db for writing!''], None)
                       else Some ([], Some \<lparr> header = [7, 6, 15, 28, 4, 1, 0, 0],
                                              tsize = of_nat table_size,
                                              file_keys = keys tbl,
                                              file_vals = vals tbl \<rparr>))"

section \<open>The program\<close>

record outcome =
  stderr_lines :: "string list"
  exit_code :: int
  written :: "db_file option"

definition main_finish :: "environment \<Rightarrow> gen_state \<Rightarrow> outcome option" where
  "main_finish env s =
     (case save_database env (critical_list s) of
        None \<Rightarrow> None
      | Some (errs, f) \<Rightarrow> Some \<lparr> stderr_lines = errs, exit_code = 0, written = f \<rparr>)"

definition main :: "environment \<Rightarrow> outcome option" where
  "main env =
     (case tt_init env of
        Inl (Fatal msg code) \<Rightarrow> Some \<lparr> stderr_lines = [msg], exit_code = code, written = None \<rparr>
      | Inr t \<Rightarrow>
          (case generate_positions env empty_position 0
                  \<lparr> tt = t, critical_list = [], critical_capacity = 0 \<rparr> of
             Inl (Fatal msg code) \<Rightarrow>
               Some \<lparr> stderr_lines = [msg], exit_code = code, written = None \<rparr>
           | Inr s \<Rightarrow> main_finish env s))"

section \<open>The consumer's lookup\<close>

text \<open>Modelled from the spec: the lookup of the playing agent, which is not part of the
  generator's sources. The spec gives it as: \<open>idx = hash64 mod table_size\<close>; probe linearly;
  a slot matches when its key is the partial key \<open>hash64 >> 16\<close> (the 32 bits the slot
  holds); the move is \<open>values[idx]\<close>; an empty slot (key 0) ends the probe with "not
  critical". A key whose partial key is 0 is a false negative by the spec's own words, so
  the empty test comes first. \<open>None\<close> is a probe that never ends, \<open>Some None\<close> is
  "not critical".\<close>

partial_function (option) lookup_probe :: "u32 list \<Rightarrow> u8 list \<Rightarrow> u32 \<Rightarrow> nat \<Rightarrow> u8 option option" where
  "lookup_probe ks vs pk idx =
     (if ks ! idx = 0 then Some None
      else if ks ! idx = pk then Some (Some (vs ! idx))
      else lookup_probe ks vs pk ((idx + 1) mod length ks))"

definition lookup :: "hash_table \<Rightarrow> u64 \<Rightarrow> u8 option option" where
  "lookup tbl h = lookup_probe (keys tbl) (vals tbl) (partial_key_of h) (unat h mod length (keys tbl))"

section \<open>The game-theoretic value\<close>

text \<open>The value the solver is to agree with in sign, by plain minimax over the rules of the
  game: a stone dropped in a playable column wins when it completes four in a line; a full
  board is a draw. \<open>four_lines\<close> lists the 69 lines of four cells; the fuel is the number
  of plies left.\<close>

definition four_lines :: "nat list list" where
  "four_lines =
     concat (map (\<lambda>c. concat (map (\<lambda>r.
        (if c + 3 < WIDTH then [[cell (c + i) r. i \<leftarrow> [0..<4]]] else [])
        @ (if r + 3 < HEIGHT then [[cell c (r + i). i \<leftarrow> [0..<4]]] else [])
        @ (if c + 3 < WIDTH \<and> r + 3 < HEIGHT then [[cell (c + i) (r + i). i \<leftarrow> [0..<4]]] else [])
        @ (if c + 3 < WIDTH \<and> 3 \<le> r then [[cell (c + i) (r - i). i \<leftarrow> [0..<4]]] else []))
       [0..<HEIGHT])) [0..<WIDTH])"

definition has_four :: "u64 \<Rightarrow> bool" where
  "has_four b = list_ex (\<lambda>l. list_all (bit b) l) four_lines"

fun minimax :: "nat \<Rightarrow> Position \<Rightarrow> int" where
  "minimax 0 p = 0"
| "minimax (Suc n) p =
     (let cols = filter (can_play p) [0..<WIDTH]
      in if cols = [] then 0
         else Max (set (map (\<lambda>c. if has_four (current p OR move_bit p c) then 1
                                   else - minimax n (play_col p c)) cols)))"

definition game_value :: "Position \<Rightarrow> int" where
  "game_value p = minimax (nat (int WIDTH * int HEIGHT - ply p)) p"

section \<open>The line detector and the lines of the board\<close>

text \<open>The line detector of one direction: the four shapes of three stones around a cell,
  with the cells a multiple of \<open>s\<close> apart.\<close>

definition direction :: "nat \<Rightarrow> u64 \<Rightarrow> u64" where
  "direction s x =
     (push_bit s x AND push_bit (2 * s) x AND push_bit (3 * s) x)
     OR (push_bit s x AND push_bit (2 * s) x AND drop_bit s x)
     OR (drop_bit s x AND drop_bit (2 * s) x AND push_bit s x)
     OR (drop_bit s x AND drop_bit (2 * s) x AND drop_bit (3 * s) x)"

definition vertical :: "u64 \<Rightarrow> u64" where
  "vertical x = push_bit 1 x AND push_bit 2 x AND push_bit 3 x"

text \<open>The lines of four cells, by the bit index of their first cell and the distance
  between neighbours: 7 along a row, 1 up a column, 8 and 6 along the diagonals.\<close>

definition lines_at :: "nat \<Rightarrow> nat \<Rightarrow> nat list list" where
  "lines_at c r =
     (if c + 3 < WIDTH then [[cell (c + i) r. i \<leftarrow> [0..<4]]] else [])
     @ (if r + 3 < HEIGHT then [[cell c (r + i). i \<leftarrow> [0..<4]]] else [])
     @ (if c + 3 < WIDTH \<and> r + 3 < HEIGHT then [[cell (c + i) (r + i). i \<leftarrow> [0..<4]]] else [])
     @ (if c + 3 < WIDTH \<and> 3 \<le> r then [[cell (c + i) (r - i). i \<leftarrow> [0..<4]]] else [])"

text \<open>The bit indices of the 42 cells of the board.\<close>

definition board_cell :: "nat \<Rightarrow> bool" where
  "board_cell k \<longleftrightarrow> k < 49 \<and> k mod 7 \<noteq> 6"

section \<open>Example positions\<close>

text \<open>A position after five plies (columns 2, 2, 3, 3, 4): the opponent of the side to
  move has three stones in a row on the bottom with both ends open.\<close>

definition double_threat :: Position where
  "double_threat = play_col (play_col (play_col (play_col (play_col empty_position 2) 2) 3) 3) 4"

text \<open>A position after six plies (columns 0, 2, 0, 3, 0, 4): the side to move has three
  stones stacked in column 0, the opponent three in a row on the bottom with both ends
  open.\<close>

definition stacked_three :: Position where
  "stacked_three =
     play_col (play_col (play_col (play_col (play_col (play_col empty_position 0) 2) 0) 3) 0) 4"

text \<open>A position of ply 28 (the columns played are 5, 2, 6, 5, 4, 4, 5, 3, 5, 3, 2, 2, 6, 6,
  2, 4, 1, 0, 1, 2, 0, 5, 2, 0, 6, 5, 0, 0) for which the classifier returns column 4, and a
  position of ply 16 in which the side to move has to block column 4.\<close>

definition critical_28 :: Position where
  "critical_28 =
     play_col (play_col (play_col (play_col (play_col (play_col (play_col (play_col (play_col (play_col (play_col (play_col (play_col (play_col (play_col (play_col (play_col (play_col (play_col (play_col (play_col (play_col (play_col (play_col (play_col (play_col (play_col (play_col empty_position 5) 2) 6) 5) 4) 4) 5) 3) 5) 3) 2) 2) 6) 6) 2) 4) 1) 0) 1) 2) 0) 5) 2) 0) 6) 5) 0) 0"

definition forced_block_16 :: Position where
  "forced_block_16 =
     play_col (play_col (play_col (play_col (play_col (play_col (play_col (play_col (play_col (play_col (play_col (play_col (play_col (play_col (play_col (play_col empty_position 2) 0) 4) 5) 0) 4) 0) 4) 1) 3) 5) 4) 3) 2) 3) 5"

section \<open>Example environments\<close>

text \<open>An environment that refuses the allocation of the hash table, and a state of the
  enumerator with one collected entry.\<close>

definition no_table_memory :: environment where
  "no_table_memory =
     \<lparr> calloc_tt_ok = True, realloc_list_ok = (\<lambda>_. True), calloc_table_ok = (\<lambda>_. False),
       fopen_ok = True \<rparr>"

definition one_entry :: gen_state where
  "one_entry =
     \<lparr> tt = tt_zero, critical_list = [\<lparr> hash = 87449037767124, winning_col = 4 \<rparr>],
       critical_capacity = 1000000 \<rparr>"

text \<open>An environment that grants every request.\<close>

definition all_ok :: environment where
  "all_ok = \<lparr> calloc_tt_ok = True, realloc_list_ok = (\<lambda>_. True), calloc_table_ok = (\<lambda>_. True),
              fopen_ok = True \<rparr>"

section \<open>The slots of the table\<close>

text \<open>The slots of the table the serializer builds: a slot is as allocated, or holds the
  partial key and the column of an entry.\<close>

definition slots_from :: "CriticalEntry set \<Rightarrow> nat \<Rightarrow> hash_table \<Rightarrow> bool" where
  "slots_from E n tbl \<longleftrightarrow>
     length (keys tbl) = n \<and> length (vals tbl) = n
     \<and> (\<forall>i<n. (keys tbl ! i = 0 \<and> vals tbl ! i = 0)
              \<or> (\<exists>e\<in>E. keys tbl ! i = partial_key_of (hash e) \<and> vals tbl ! i = winning_col e))"

section \<open>Facts about the bitboard constants\<close>

lemma upt_WIDTH: "[0..<WIDTH] = [0, 1, 2, 3, 4, 5, 6]"
  by (simp add: WIDTH_def upt_rec)

lemma init_bitboards_eq:
  "init_bitboards =
     \<lparr> g_bottom_mask_col = map (\<lambda>c. push_bit (7 * c) 1) [0, 1, 2, 3, 4, 5, 6],
       g_column_mask_col = map (\<lambda>c. push_bit (7 * c) 63) [0, 1, 2, 3, 4, 5, 6],
       g_bottom_mask = 0x40810204081,
       g_board_mask = 0xFDFBF7EFDFBF \<rparr>"
  unfolding init_bitboards_def upt_WIDTH
  by (simp add: init_step_def HEIGHT_def WIDTH_def Let_def eval_nat_numeral)

lemma bottom_mask_val: "bottom_mask = 0x40810204081"
  by (simp add: bottom_mask_def init_bitboards_eq)

lemma board_mask_val: "board_mask = 0xFDFBF7EFDFBF"
  by (simp add: board_mask_def init_bitboards_eq)

lemma lt7: "c < 7 \<Longrightarrow> c = 0 \<or> c = 1 \<or> c = 2 \<or> c = 3 \<or> c = 4 \<or> c = 5 \<or> c = (6::nat)"
  by arith

lemma bottom_mask_col_eq: "col < 7 \<Longrightarrow> bottom_mask_col col = push_bit (7 * col) 1"
  using lt7[of col] by (auto simp add: bottom_mask_col_def init_bitboards_eq)

lemma column_mask_col_eq: "col < 7 \<Longrightarrow> column_mask_col col = push_bit (7 * col) 63"
  using lt7[of col] by (auto simp add: column_mask_col_def init_bitboards_eq)

lemma bit_63: "bit (63 :: u64) j \<longleftrightarrow> j < 6"
proof -
  have h: "(63 :: u64) = semiring_bit_operations_class.mask 6"
    by (simp add: mask_eq_exp_minus_1)
  show ?thesis
    unfolding h bit_mask_iff by auto
qed

lemma bit_push_63: "bit (push_bit n (63 :: u64)) k \<longleftrightarrow> n \<le> k \<and> k < n + 6 \<and> k < 64"
  unfolding bit_push_bit_iff bit_63 by auto

lemma bit_exp_u64: "bit (2 ^ n :: u64) k \<longleftrightarrow> k = n \<and> k < 64"
  unfolding bit_exp_iff by auto

lemma seven_bottoms:
  "bit (2 ^ a OR 2 ^ b OR 2 ^ c OR 2 ^ d OR 2 ^ e OR 2 ^ f OR (2 ^ g :: u64)) k
   \<longleftrightarrow> k < 64 \<and> (k = a \<or> k = b \<or> k = c \<or> k = d \<or> k = e \<or> k = f \<or> k = g)"
  unfolding bit_or_iff bit_exp_u64 by auto

lemma seven_columns:
  "bit (push_bit a 63 OR push_bit b 63 OR push_bit c 63 OR push_bit d 63
       OR push_bit e 63 OR push_bit f 63 OR push_bit g (63 :: u64)) k
   \<longleftrightarrow> k < 64 \<and> ((a \<le> k \<and> k < a + 6) \<or> (b \<le> k \<and> k < b + 6) \<or> (c \<le> k \<and> k < c + 6)
        \<or> (d \<le> k \<and> k < d + 6) \<or> (e \<le> k \<and> k < e + 6) \<or> (f \<le> k \<and> k < f + 6)
        \<or> (g \<le> k \<and> k < g + 6))"
  unfolding bit_or_iff bit_push_63 by auto

lemma bit_bottom_mask: "bit bottom_mask k \<longleftrightarrow> k < 49 \<and> k mod 7 = 0"
proof -
  have h: "bottom_mask = 2 ^ 0 OR 2 ^ 7 OR 2 ^ 14 OR 2 ^ 21 OR 2 ^ 28 OR 2 ^ 35 OR (2 ^ 42 :: u64)"
    by (simp add: bottom_mask_val)
  have "bit bottom_mask k \<longleftrightarrow>
      k < 64 \<and> (k = 0 \<or> k = 7 \<or> k = 14 \<or> k = 21 \<or> k = 28 \<or> k = 35 \<or> k = 42)"
    unfolding h seven_bottoms ..
  also have "\<dots> \<longleftrightarrow> k < 49 \<and> k mod 7 = 0" by presburger
  finally show ?thesis .
qed

lemma bit_board_mask: "bit board_mask k \<longleftrightarrow> k < 49 \<and> k mod 7 \<noteq> 6"
proof -
  have h: "board_mask = push_bit 0 63 OR push_bit 7 63 OR push_bit 14 63
       OR push_bit 21 63 OR push_bit 28 63 OR push_bit 35 63 OR push_bit 42 (63 :: u64)"
    by (simp add: board_mask_val)
  have "bit board_mask k \<longleftrightarrow> k < 64 \<and> ((0 \<le> k \<and> k < 0 + 6) \<or> (7 \<le> k \<and> k < 7 + 6)
      \<or> (14 \<le> k \<and> k < 14 + 6) \<or> (21 \<le> k \<and> k < 21 + 6) \<or> (28 \<le> k \<and> k < 28 + 6)
      \<or> (35 \<le> k \<and> k < 35 + 6) \<or> (42 \<le> k \<and> k < 42 + 6))"
    unfolding h seven_columns ..
  also have "\<dots> \<longleftrightarrow> k < 49 \<and> k mod 7 \<noteq> 6" by presburger
  finally show ?thesis .
qed

lemma bit_bottom_mask_col: "col < 7 \<Longrightarrow> bit (bottom_mask_col col) k \<longleftrightarrow> k = 7 * col"
  by (auto simp add: bottom_mask_col_eq bit_exp_u64)

lemma bit_column_mask_col:
  "col < 7 \<Longrightarrow> bit (column_mask_col col) k \<longleftrightarrow> 7 * col \<le> k \<and> k < 7 * col + 6"
  by (auto simp add: column_mask_col_eq bit_push_63)

lemma bit_top_mask_col: "col < 7 \<Longrightarrow> bit (top_mask_col col) k \<longleftrightarrow> k = 7 * col + 5"
  by (auto simp add: top_mask_col_def HEIGHT_def bit_exp_u64)

lemma add_next_free:
  fixes u b :: "'a::len word"
  assumes "u AND NOT (push_bit 1 u OR b) = 0" and "push_bit 1 u AND b = 0"
  shows "u + b = NOT u AND (push_bit 1 u OR b)"
proof -
  let ?t = "NOT u AND (push_bit 1 u OR b)"
  have "u AND ?t = 0"
    by (simp add: bit_eq_iff bit_simps)
  then have "u + ?t = u OR ?t"
    by (rule disjunctive_add_eq_or)
  also have "\<dots> = push_bit 1 u OR b"
    using assms(1) by (auto simp add: bit_eq_iff bit_simps)
  also have "\<dots> = push_bit 1 u + b"
    using assms(2) by (simp add: disjunctive_add_eq_or)
  also have "\<dots> = u + (u + b)"
    by (simp add: push_bit_eq_mult)
  finally show ?thesis by simp
qed

section \<open>Consequences of the invariants\<close>

lemma cell_eq: "cell c r = r + 7 * c"
  by (simp add: cell_def HEIGHT_def)

lemma bit_u64_less: "bit (w :: u64) k \<Longrightarrow> k < 64"
  using bit_imp_le_length [of w k] by simp

lemma bit_push1: "bit (push_bit 1 (w :: u64)) k \<longleftrightarrow> 1 \<le> k \<and> k < 64 \<and> bit w (k - 1)"
  unfolding bit_push_bit_iff by auto

lemma bit_times2: "bit (w * 2 :: u64) k \<longleftrightarrow> 1 \<le> k \<and> k < 64 \<and> bit w (k - 1)"
  using bit_push1 [of w k] by (simp add: push_bit_eq_mult)

lemma mask_in_board:
  assumes "invariants p" and "bit (mask p) k"
  shows "k < 49 \<and> k mod 7 \<noteq> 6"
proof -
  from assms(1) have "mask p AND NOT board_mask = 0"
    by (simp add: invariants_def)
  then have "\<not> bit (mask p AND NOT board_mask) k"
    by simp
  with assms(2) have "bit board_mask k"
    using bit_u64_less [of "mask p" k] by (simp add: bit_and_iff bit_not_iff)
  then show ?thesis
    by (simp add: bit_board_mask)
qed

lemma current_in_mask:
  assumes "invariants p" and "bit (current p) k"
  shows "bit (mask p) k"
proof -
  from assms(1) have "current p AND NOT (mask p) = 0"
    by (simp add: invariants_def)
  then have "\<not> bit (current p AND NOT (mask p)) k"
    by simp
  with assms(2) show ?thesis
    using bit_u64_less [of "current p" k] by (simp add: bit_and_iff bit_not_iff)
qed

lemma mask_below:
  assumes "invariants p" and "bit (mask p) k" and "k mod 7 \<noteq> 0"
  shows "bit (mask p) (k - 1)"
proof -
  from assms(1,2) have k: "k < 49" "k mod 7 \<noteq> 6"
    using mask_in_board by blast+
  define c where "c = k div 7"
  define r where "r = k mod 7"
  have kcr: "k = r + 7 * c" and "c < 7" and "1 \<le> r" and "r < 6"
    using k assms(3) by (auto simp add: c_def r_def)
  then have "c \<in> {0..<WIDTH}" and "r \<in> {1..<HEIGHT}"
    by (simp_all add: WIDTH_def HEIGHT_def)
  moreover from assms(1) have
    "\<forall>c \<in> {0..<WIDTH}. \<forall>r \<in> {1..<HEIGHT}. bit (mask p) (cell c r) \<longrightarrow> bit (mask p) (cell c (r - 1))"
    by (simp add: invariants_def)
  ultimately have "bit (mask p) (cell c r) \<longrightarrow> bit (mask p) (cell c (r - 1))"
    by blast
  moreover have "cell c r = k" and "cell c (r - 1) = k - 1"
    using kcr \<open>1 \<le> r\<close> by (simp_all add: cell_eq)
  ultimately show ?thesis
    using assms(2) by simp
qed

lemma column_filled_below:
  assumes "invariants p" and "bit (mask p) (7 * c + r)" and "r < 7" and "r' \<le> r"
  shows "bit (mask p) (7 * c + r')"
  using assms(2,3,4)
proof (induction "r - r'" arbitrary: r)
  case 0
  then show ?case by simp
next
  case (Suc d)
  then have "(7 * c + r) mod 7 \<noteq> 0" by simp
  with assms(1) Suc.prems(1) have "bit (mask p) (7 * c + r - 1)"
    by (rule mask_below)
  moreover have "7 * c + r - 1 = 7 * c + (r - 1)"
    using Suc.hyps(2) by simp
  ultimately have "bit (mask p) (7 * c + (r - 1))" by simp
  moreover have "d = (r - 1) - r'" and "r - 1 < 7" and "r' \<le> r - 1"
    using Suc.hyps(2) Suc.prems by simp_all
  ultimately show ?case
    using Suc.hyps(1) by blast
qed

text \<open>The cells where the next stone of each column lands.\<close>

lemma mask_plus_bottom:
  assumes "invariants p"
  shows "mask p + bottom_mask = NOT (mask p) AND (push_bit 1 (mask p) OR bottom_mask)"
proof (rule add_next_free)
  show "mask p AND NOT (push_bit 1 (mask p) OR bottom_mask) = 0"
  proof (rule bit_eqI)
    fix k
    have "bit (mask p) k \<longrightarrow> bit (push_bit 1 (mask p)) k \<or> bit bottom_mask k"
    proof
      assume b: "bit (mask p) k"
      with assms have k: "k < 49" using mask_in_board by blast
      show "bit (push_bit 1 (mask p)) k \<or> bit bottom_mask k"
      proof (cases "k mod 7 = 0")
        case True
        with k show ?thesis by (simp add: bit_bottom_mask)
      next
        case False
        with assms b have "bit (mask p) (k - 1)" by (rule mask_below)
        moreover from False have "1 \<le> k" by (cases k) auto
        ultimately show ?thesis using k by (simp add: bit_times2)
      qed
    qed
    then show "bit (mask p AND NOT (push_bit 1 (mask p) OR bottom_mask)) k = bit (0 :: u64) k"
      by (auto simp add: bit_and_iff bit_not_iff bit_or_iff)
  qed
next
  show "push_bit 1 (mask p) AND bottom_mask = 0"
  proof (rule bit_eqI)
    fix k
    have "\<not> (bit (push_bit 1 (mask p)) k \<and> bit bottom_mask k)"
    proof
      assume a: "bit (push_bit 1 (mask p)) k \<and> bit bottom_mask k"
      then have k1: "1 \<le> k" and b: "bit (mask p) (k - 1)"
        unfolding bit_push1 by simp_all
      from a have k7: "k mod 7 = 0"
        unfolding bit_bottom_mask by simp
      from k7 obtain q where q: "k = 7 * q" by (auto simp add: mod_eq_0_iff_dvd)
      with k1 have "k - 1 = 6 + 7 * (q - 1)" by (cases q) auto
      then have "(k - 1) mod 7 = 6" by simp
      with assms b show False
        using mask_in_board by blast
    qed
    then show "bit (push_bit 1 (mask p) AND bottom_mask) k = bit (0 :: u64) k"
      by (auto simp add: bit_and_iff)
  qed
qed

lemma bit_possible:
  assumes "invariants p"
  shows "bit ((mask p + bottom_mask) AND board_mask) k \<longleftrightarrow>
           k < 49 \<and> k mod 7 \<noteq> 6 \<and> \<not> bit (mask p) k \<and> (k mod 7 = 0 \<or> bit (mask p) (k - 1))"
proof -
  have "k mod 7 = 0 \<or> 1 \<le> k" by (cases k) auto
  then show ?thesis
    unfolding mask_plus_bottom [OF assms]
    by (auto simp add: bit_and_iff bit_not_iff bit_or_iff bit_push1 bit_times2 bit_board_mask bit_bottom_mask)
qed

lemma bit_move_bit:
  assumes inv: "invariants p" and col: "col < 7"
  shows "bit (move_bit p col) k \<longleftrightarrow>
           7 * col \<le> k \<and> k < 7 * col + 6 \<and> \<not> bit (mask p) k \<and> (k = 7 * col \<or> bit (mask p) (k - 1))"
proof -
  define m where "m = mask p"
  define cm where "cm = column_mask_col col"
  define bc where "bc = bottom_mask_col col"
  define u where "u = m AND cm"
  define rest where "rest = m AND NOT cm"
  define t where "t = NOT u AND (push_bit 1 u OR bc)"
  have bit_cm: "bit cm j \<longleftrightarrow> 7 * col \<le> j \<and> j < 7 * col + 6" for j
    unfolding cm_def using col by (rule bit_column_mask_col)
  have bit_bc: "bit bc j \<longleftrightarrow> j = 7 * col" for j
    unfolding bc_def using col by (rule bit_bottom_mask_col)
  have bit_u: "bit u j \<longleftrightarrow> bit m j \<and> 7 * col \<le> j \<and> j < 7 * col + 6" for j
    unfolding u_def bit_and_iff bit_cm ..
  have bit_rest: "bit rest j \<longleftrightarrow> bit m j \<and> \<not> (7 * col \<le> j \<and> j < 7 * col + 6)" for j
    unfolding rest_def bit_and_iff bit_not_iff bit_cm using bit_u64_less [of m j] by auto
  have bit_t: "bit t j \<longleftrightarrow> j < 64 \<and> \<not> bit u j \<and> ((1 \<le> j \<and> bit u (j - 1)) \<or> j = 7 * col)" for j
    unfolding t_def bit_and_iff bit_not_iff bit_or_iff bit_push1 bit_bc by auto
  have below: "bit m (j - 1)" if bj: "bit m j" and lo: "7 * col < j" and hi: "j < 7 * col + 6" for j
  proof -
    define r where "r = j - 7 * col"
    have "j = 7 * col + r" and "1 \<le> r" and "r < 6"
      using lo hi by (simp_all add: r_def)
    then have "j mod 7 \<noteq> 0" by simp
    with inv bj show ?thesis
      unfolding m_def by (rule mask_below)
  qed
  have m_split: "m = rest + u"
  proof -
    have "rest AND u = 0"
      by (rule bit_eqI) (auto simp add: bit_and_iff bit_rest bit_u)
    then have "rest + u = rest OR u"
      by (rule disjunctive_add_eq_or)
    also have "\<dots> = m"
      by (rule bit_eqI) (auto simp add: bit_or_iff bit_rest bit_u)
    finally show ?thesis by simp
  qed
  have "u + bc = t"
    unfolding t_def
  proof (rule add_next_free)
    show "u AND NOT (push_bit 1 u OR bc) = 0"
    proof (rule bit_eqI)
      fix j
      have "bit (push_bit 1 u) j \<or> bit bc j" if "bit u j"
      proof (cases "j = 7 * col")
        case True
        then show ?thesis by (simp add: bit_bc)
      next
        case False
        with that have j: "bit m j" "7 * col < j" "j < 7 * col + 6"
          by (auto simp add: bit_u)
        then have "bit m (j - 1)" by (rule below)
        with j have "bit u (j - 1)" by (auto simp add: bit_u)
        with j show ?thesis
          unfolding bit_push1 using bit_u64_less [of m j] by simp
      qed
      then show "bit (u AND NOT (push_bit 1 u OR bc)) j = bit (0 :: u64) j"
        by (auto simp add: bit_and_iff bit_not_iff bit_or_iff)
    qed
  next
    show "push_bit 1 u AND bc = 0"
    proof (rule bit_eqI)
      fix j
      have "\<not> (bit (push_bit 1 u) j \<and> bit bc j)"
        unfolding bit_push1 bit_bc bit_u by auto
      then show "bit (push_bit 1 u AND bc) j = bit (0 :: u64) j"
        by (auto simp add: bit_and_iff)
    qed
  qed
  then have "m + bc = rest + t"
    using m_split by simp
  also have "rest + t = rest OR t"
  proof (rule disjunctive_add_eq_or, rule bit_eqI)
    fix j
    have "\<not> (bit rest j \<and> bit t j)"
    proof
      assume a: "bit rest j \<and> bit t j"
      then have "bit m j" and out: "\<not> (7 * col \<le> j \<and> j < 7 * col + 6)"
        by (simp_all add: bit_rest)
      from a out have "7 * col \<le> j - 1 \<and> j - 1 < 7 * col + 6 \<and> 1 \<le> j"
        by (auto simp add: bit_t bit_u)
      with out have "j = 7 * col + 6" by linarith
      then have "j mod 7 = 6" by simp
      with inv \<open>bit m j\<close> show False
        unfolding m_def using mask_in_board by blast
    qed
    then show "bit (rest AND t) j = bit (0 :: u64) j"
      by (auto simp add: bit_and_iff)
  qed
  finally have sum: "m + bc = rest OR t" .
  have "bit (move_bit p col) k \<longleftrightarrow> bit ((rest OR t) AND cm) k"
    unfolding move_bit_def sum [symmetric] m_def bc_def cm_def ..
  also have "\<dots> \<longleftrightarrow> bit t k \<and> 7 * col \<le> k \<and> k < 7 * col + 6"
    unfolding bit_and_iff bit_or_iff bit_rest bit_cm by auto
  also have "\<dots> \<longleftrightarrow> 7 * col \<le> k \<and> k < 7 * col + 6 \<and> \<not> bit m k \<and> (k = 7 * col \<or> bit m (k - 1))"
    using col unfolding bit_t bit_u by auto
  finally show ?thesis
    unfolding m_def .
qed

lemma u64_eq_0_iff: "(w :: u64) = 0 \<longleftrightarrow> (\<forall>k. \<not> bit w k)"
  by (auto simp add: bit_eq_iff dest: bit_u64_less)

lemma can_play_iff: "col < 7 \<Longrightarrow> can_play p col \<longleftrightarrow> \<not> bit (mask p) (7 * col + 5)"
proof -
  assume col: "col < 7"
  have "mask p AND top_mask_col col = 0 \<longleftrightarrow> (\<forall>k. \<not> bit (mask p AND top_mask_col col) k)"
    by (rule u64_eq_0_iff)
  also have "\<dots> \<longleftrightarrow> \<not> bit (mask p) (7 * col + 5)"
    unfolding bit_and_iff bit_top_mask_col [OF col] by auto
  finally show ?thesis
    by (simp add: can_play_def)
qed

lemma move_bit_single:
  assumes inv: "invariants p" and col: "col < 7" and play: "can_play p col"
  obtains h where "h < 6" and "move_bit p col = 2 ^ (7 * col + h)"
    and "\<not> bit (mask p) (7 * col + h)" and "\<forall>r<h. bit (mask p) (7 * col + r)"
proof -
  define h where "h = (LEAST r. \<not> bit (mask p) (7 * col + r))"
  from play col have top: "\<not> bit (mask p) (7 * col + 5)"
    by (simp add: can_play_iff)
  then have free: "\<not> bit (mask p) (7 * col + h)"
    unfolding h_def by (rule LeastI)
  from top have "h \<le> 5"
    unfolding h_def by (rule Least_le)
  have filled: "bit (mask p) (7 * col + r)" if "r < h" for r
    using that not_less_Least unfolding h_def by blast
  have "move_bit p col = 2 ^ (7 * col + h)"
  proof (rule bit_eqI)
    fix k
    have "bit (move_bit p col) k \<longleftrightarrow> k = 7 * col + h"
    proof
      assume "bit (move_bit p col) k"
      then have k: "7 * col \<le> k" "k < 7 * col + 6" "\<not> bit (mask p) k"
        "k = 7 * col \<or> bit (mask p) (k - 1)"
        using bit_move_bit [OF inv col] by blast+
      define r where "r = k - 7 * col"
      have kr: "k = 7 * col + r" and "r < 6" using k(1,2) by (simp_all add: r_def)
      from k(3) have "h \<le> r"
        unfolding h_def kr by (rule Least_le)
      moreover have "\<not> h < r"
      proof
        assume "h < r"
        with k(4) kr have "bit (mask p) (7 * col + (r - 1))" and "h \<le> r - 1"
          by auto
        with inv \<open>r < 6\<close> have "bit (mask p) (7 * col + h)"
          by (intro column_filled_below [of p col "r - 1" h]) auto
        with free show False by simp
      qed
      ultimately show "k = 7 * col + h" using kr by simp
    next
      assume k: "k = 7 * col + h"
      have "h = 0 \<or> bit (mask p) (7 * col + (h - 1))"
        using filled [of "h - 1"] by (cases h) auto
      then have "k = 7 * col \<or> bit (mask p) (k - 1)"
        unfolding k by (cases h) auto
      with k free \<open>h \<le> 5\<close> show "bit (move_bit p col) k"
        using bit_move_bit [OF inv col, of k] by simp
    qed
    also have "k = 7 * col + h \<longleftrightarrow> bit (2 ^ (7 * col + h) :: u64) k"
      using col \<open>h \<le> 5\<close> by (auto simp add: bit_exp_u64)
    finally show "bit (move_bit p col) k = bit (2 ^ (7 * col + h) :: u64) k" .
  qed
  with \<open>h \<le> 5\<close> free filled show ?thesis
    by (intro that [of h]) auto
qed

lemma popcount_card: "popcount w = card {k. bit w k}"
proof -
  have "popcount w = card {i. i < length [0..<64 :: nat] \<and> bit w ([0..<64] ! i)}"
    unfolding popcount_def by (rule length_filter_conv_card)
  also have "{i. i < length [0..<64 :: nat] \<and> bit w ([0..<64] ! i)} = {k. bit w k}"
    using bit_u64_less [of w] by auto
  finally show ?thesis .
qed

lemma popcount_set_bit:
  assumes "\<not> bit w k" and "k < 64"
  shows "popcount (w OR 2 ^ k) = popcount w + 1"
proof -
  have "{j. bit (w OR 2 ^ k) j} = insert k {j. bit w j}"
    using assms(2) by (auto simp add: bit_or_iff bit_exp_u64)
  moreover have "finite {j. bit w j}"
    by simp
  moreover have "k \<notin> {j. bit w j}"
    using assms(1) by simp
  ultimately show ?thesis
    by (simp add: popcount_card)
qed

lemma invariants_empty: "invariants empty_position"
  by (simp add: invariants_def empty_position_def popcount_def)

lemma invariants_play_col:
  assumes inv: "invariants p" and col: "col < 7" and play: "can_play p col"
  shows "invariants (play_col p col)"
proof -
  obtain h where h: "h < 6" "move_bit p col = 2 ^ (7 * col + h)"
    "\<not> bit (mask p) (7 * col + h)" "\<forall>r<h. bit (mask p) (7 * col + r)"
    using inv col play by (rule move_bit_single)
  define q where "q = play_col p col"
  have q_cur: "current q = current p XOR mask p"
    and q_mask: "mask q = mask p OR 2 ^ (7 * col + h)"
    and q_ply: "ply q = ply p + 1"
    by (simp_all add: q_def play_col_def Let_def h(2))
  have lt64: "7 * col + h < 64" using col h(1) by simp
  have bit_q: "bit (mask q) k \<longleftrightarrow> bit (mask p) k \<or> k = 7 * col + h" for k
    unfolding q_mask bit_or_iff bit_exp_u64 using lt64 by auto
  have bit_qc: "bit (current q) k \<Longrightarrow> bit (mask p) k" for k
    unfolding q_cur bit_xor_iff using current_in_mask [OF inv, of k] by auto
  have board_q: "bit board_mask k" if "bit (mask q) k" for k
  proof -
    from that consider "bit (mask p) k" | "k = 7 * col + h"
      unfolding bit_q by blast
    then show ?thesis
    proof cases
      case 1
      with inv show ?thesis
        unfolding bit_board_mask by (rule mask_in_board)
    next
      case 2
      with col h(1) show ?thesis
        unfolding bit_board_mask by simp
    qed
  qed
  have i1: "current q AND NOT (mask q) = 0"
    by (rule bit_eqI) (use bit_qc bit_q in \<open>auto simp add: bit_and_iff bit_not_iff\<close>)
  have i2: "mask q AND NOT board_mask = 0"
    by (rule bit_eqI) (use board_q in \<open>auto simp add: bit_and_iff bit_not_iff\<close>)
  have i3: "current q AND NOT board_mask = 0"
    by (rule bit_eqI) (use board_q bit_qc bit_q in \<open>auto simp add: bit_and_iff bit_not_iff\<close>)
  have i4: "\<not> bit (mask q) (cell c HEIGHT) \<and> \<not> bit (current q) (cell c HEIGHT)" for c
  proof -
    have "\<not> bit board_mask (cell c HEIGHT)"
      unfolding bit_board_mask cell_eq HEIGHT_def by simp
    with board_q bit_qc bit_q show ?thesis by blast
  qed
  have i5: "int (popcount (mask q)) = ply q"
  proof -
    have "popcount (mask q) = popcount (mask p) + 1"
      unfolding q_mask using h(3) lt64 by (rule popcount_set_bit)
    moreover from inv have "int (popcount (mask p)) = ply p"
      by (simp add: invariants_def)
    ultimately show ?thesis by (simp add: q_ply)
  qed
  have i6: "bit (mask q) (cell c (r - 1))"
    if c: "c \<in> {0..<WIDTH}" and r: "r \<in> {1..<HEIGHT}" and b: "bit (mask q) (cell c r)" for c r
  proof -
    from b consider "bit (mask p) (cell c r)" | "cell c r = 7 * col + h"
      unfolding bit_q by blast
    then show ?thesis
    proof cases
      case 1
      moreover from inv have
        "\<forall>c \<in> {0..<WIDTH}. \<forall>r \<in> {1..<HEIGHT}. bit (mask p) (cell c r) \<longrightarrow> bit (mask p) (cell c (r - 1))"
        by (simp add: invariants_def)
      ultimately have "bit (mask p) (cell c (r - 1))"
        using c r by blast
      then show ?thesis by (simp add: bit_q)
    next
      case 2
      then have e: "r + 7 * c = h + 7 * col"
        unfolding cell_eq by simp
      then have "(r + 7 * c) mod 7 = (h + 7 * col) mod 7"
        by simp
      with r h(1) have "r = h"
        by (simp add: HEIGHT_def)
      with e have "r = h \<and> c = col"
        by simp
      moreover from r have "1 \<le> r" by simp
      ultimately have "r - 1 < h" and "c = col"
        by simp_all
      with h(4) have "bit (mask p) (7 * col + (r - 1))" and "c = col"
        by blast+
      then show ?thesis
        unfolding bit_q cell_eq by (simp add: add.commute)
    qed
  qed
  show ?thesis
    unfolding q_def [symmetric] invariants_def
    using i1 i2 i3 i4 i5 i6 by blast
qed

lemma reachable_invariants_aux: "reachable p \<Longrightarrow> invariants p"
proof (induction rule: reachable.induct)
  case reachable_empty
  show ?case by (rule invariants_empty)
next
  case (reachable_play p col)
  then show ?case
    by (simp add: invariants_play_col WIDTH_def)
qed

lemma bit_next_cells:
  assumes "invariants p"
  shows "bit (mask p + bottom_mask) k \<longleftrightarrow>
           k < 49 \<and> \<not> bit (mask p) k \<and> (k mod 7 = 0 \<or> bit (mask p) (k - 1))"
proof -
  have a: "k mod 7 = 0 \<or> 1 \<le> k" by (cases k) auto
  have b: "k < 49" if "bit (mask p) (k - 1)" and "1 \<le> k"
  proof -
    from mask_in_board [OF assms that(1)] have "k - 1 < 49" and "(k - 1) mod 7 \<noteq> 6"
      by simp_all
    then have "k - 1 \<noteq> 48" by (intro notI) simp
    with \<open>k - 1 < 49\<close> show ?thesis by linarith
  qed
  show ?thesis
    unfolding mask_plus_bottom [OF assms]
    using a b
    by (auto simp add: bit_and_iff bit_not_iff bit_or_iff bit_push1 bit_times2 bit_bottom_mask)
qed

text \<open>In the lane of a column the landing cell lies above every stone.\<close>

lemma next_cell_on_top:
  assumes inv: "invariants p" and t: "bit (mask p + bottom_mask) k"
    and j: "k < j" "j div 7 = k div 7"
  shows "\<not> bit (mask p) j \<and> \<not> bit (mask p + bottom_mask) j"
proof -
  define c where "c = k div 7"
  define r where "r = k mod 7"
  define r' where "r' = j mod 7"
  have k: "k = 7 * c + r" and "r < 7" and "r' < 7"
    by (simp_all add: c_def r_def r'_def)
  have jj: "j = 7 * c + r'"
    using j(2) div_mult_mod_eq [of j 7] by (simp add: c_def r'_def)
  with j(1) k have rr: "r < r'" by simp
  from t have free: "\<not> bit (mask p) (7 * c + r)"
    unfolding bit_next_cells [OF inv] k by simp
  have no: "\<not> bit (mask p) (7 * c + s)" if "r \<le> s" and "s < 7" for s
  proof
    assume "bit (mask p) (7 * c + s)"
    with inv have "bit (mask p) (7 * c + r)"
      using that by (intro column_filled_below [of p c s r]) auto
    with free show False by simp
  qed
  have "\<not> bit (mask p) j"
    unfolding jj using rr \<open>r' < 7\<close> by (intro no) auto
  moreover have "\<not> bit (mask p + bottom_mask) j"
  proof
    assume "bit (mask p + bottom_mask) j"
    then have "j mod 7 = 0 \<or> bit (mask p) (j - 1)"
      unfolding bit_next_cells [OF inv] by simp
    moreover have "j mod 7 \<noteq> 0" and "j - 1 = 7 * c + (r' - 1)"
      using rr jj \<open>r' < 7\<close> by auto
    ultimately have "bit (mask p) (7 * c + (r' - 1))" by simp
    moreover have "\<not> bit (mask p) (7 * c + (r' - 1))"
      using rr \<open>r' < 7\<close> by (intro no) auto
    ultimately show False by simp
  qed
  ultimately show ?thesis by simp
qed

lemma next_cell_exists:
  assumes inv: "invariants p" and c: "c < 7"
  obtains h where "h < 7" and "bit (mask p + bottom_mask) (7 * c + h)"
    and "\<forall>r<h. bit (mask p) (7 * c + r)"
proof -
  define h where "h = (LEAST r. \<not> bit (mask p) (7 * c + r))"
  have guard: "\<not> bit (mask p) (7 * c + 6)"
  proof
    assume "bit (mask p) (7 * c + 6)"
    with inv have "(7 * c + 6) mod 7 \<noteq> 6" using mask_in_board by blast
    then show False by simp
  qed
  then have free: "\<not> bit (mask p) (7 * c + h)"
    unfolding h_def by (rule LeastI)
  from guard have "h \<le> 6"
    unfolding h_def by (rule Least_le)
  have filled: "bit (mask p) (7 * c + r)" if "r < h" for r
    using that not_less_Least unfolding h_def by blast
  have "h = 0 \<or> bit (mask p) (7 * c + (h - 1))"
    using filled [of "h - 1"] by (cases h) auto
  then have "(7 * c + h) mod 7 = 0 \<or> bit (mask p) (7 * c + h - 1)"
    using \<open>h \<le> 6\<close> by (cases h) auto
  with free c \<open>h \<le> 6\<close> have "bit (mask p + bottom_mask) (7 * c + h)"
    unfolding bit_next_cells [OF inv] by simp
  with \<open>h \<le> 6\<close> filled show ?thesis
    by (intro that [of h]) auto
qed

lemma bit_key_plus_bottom:
  assumes inv: "invariants p"
  shows "bit (position_key p + bottom_mask) k \<longleftrightarrow> bit (current p) k \<or> bit (mask p + bottom_mask) k"
proof -
  have "current p AND (mask p + bottom_mask) = 0"
    by (rule bit_eqI)
      (use current_in_mask [OF inv] in \<open>auto simp add: bit_and_iff bit_next_cells [OF inv]\<close>)
  then have "current p + (mask p + bottom_mask) = current p OR (mask p + bottom_mask)"
    by (rule disjunctive_add_eq_or)
  then have "position_key p + bottom_mask = current p OR (mask p + bottom_mask)"
    by (simp add: position_key_def add.assoc)
  then show ?thesis
    by (simp add: bit_or_iff)
qed

text \<open>The landing cells are read off the key: in each lane, the topmost bit of
  \<open>key + bottom_mask\<close>.\<close>

lemma next_cells_from_key:
  assumes inv: "invariants p"
  shows "bit (mask p + bottom_mask) k \<longleftrightarrow>
           bit (position_key p + bottom_mask) k
           \<and> (\<forall>j. k < j \<and> j div 7 = k div 7 \<longrightarrow> \<not> bit (position_key p + bottom_mask) j)"
proof
  assume t: "bit (mask p + bottom_mask) k"
  have "\<not> bit (position_key p + bottom_mask) j" if "k < j \<and> j div 7 = k div 7" for j
  proof -
    from inv t that have "\<not> bit (mask p) j \<and> \<not> bit (mask p + bottom_mask) j"
      by (intro next_cell_on_top [of p k j]) auto
    then show ?thesis
      unfolding bit_key_plus_bottom [OF inv] using current_in_mask [OF inv, of j] by blast
  qed
  with t show "bit (position_key p + bottom_mask) k
      \<and> (\<forall>j. k < j \<and> j div 7 = k div 7 \<longrightarrow> \<not> bit (position_key p + bottom_mask) j)"
    unfolding bit_key_plus_bottom [OF inv, of k] by blast
next
  assume a: "bit (position_key p + bottom_mask) k
      \<and> (\<forall>j. k < j \<and> j div 7 = k div 7 \<longrightarrow> \<not> bit (position_key p + bottom_mask) j)"
  show "bit (mask p + bottom_mask) k"
  proof (rule ccontr)
    assume nt: "\<not> bit (mask p + bottom_mask) k"
    with a have "bit (current p) k"
      unfolding bit_key_plus_bottom [OF inv, of k] by blast
    with inv have mk: "bit (mask p) k" by (rule current_in_mask)
    with inv have k49: "k < 49" using mask_in_board by blast
    define c where "c = k div 7"
    define r where "r = k mod 7"
    have k: "k = 7 * c + r" and "c < 7" and "r < 7"
      using k49 by (simp_all add: c_def r_def)
    obtain h where h: "h < 7" "bit (mask p + bottom_mask) (7 * c + h)"
      "\<forall>r<h. bit (mask p) (7 * c + r)"
      using inv \<open>c < 7\<close> by (rule next_cell_exists)
    from h(2) have free: "\<not> bit (mask p) (7 * c + h)"
      unfolding bit_next_cells [OF inv] by simp
    have "r < h"
    proof (rule ccontr)
      assume "\<not> r < h"
      with inv mk \<open>r < 7\<close> have "bit (mask p) (7 * c + h)"
        unfolding k by (intro column_filled_below [of p c r h]) auto
      with free show False by simp
    qed
    then have "k < 7 * c + h" and "(7 * c + h) div 7 = k div 7"
      using h(1) \<open>r < 7\<close> by (simp_all add: k)
    with a have "\<not> bit (position_key p + bottom_mask) (7 * c + h)"
      by blast
    with h(2) show False
      unfolding bit_key_plus_bottom [OF inv] by simp
  qed
qed

lemma key_injective_aux:
  assumes inv: "invariants p" and inv': "invariants p'"
    and eq: "position_key p = position_key p'"
  shows "current p = current p' \<and> mask p = mask p'"
proof -
  have t: "bit (mask p + bottom_mask) k \<longleftrightarrow> bit (mask p' + bottom_mask) k" for k
    unfolding next_cells_from_key [OF inv] next_cells_from_key [OF inv'] eq ..
  then have "mask p + bottom_mask = mask p' + bottom_mask"
    by (rule bit_eqI)
  then have m: "mask p = mask p'"
    by simp
  then have "current p + mask p = current p' + mask p"
    using eq by (simp add: position_key_def)
  then have "current p = current p'"
    by simp
  with m show ?thesis by simp
qed

section \<open>Invariants of reachable positions\<close>

lemma play_col_empty_3:
  "play_col empty_position 3 = \<lparr> current = 0, mask = 0x200000, ply = 1 \<rparr>"
  by (simp add: play_col_def move_bit_def empty_position_def bottom_mask_col_eq column_mask_col_eq)

lemma play_col_3_3:
  "play_col (play_col empty_position 3) 3 = \<lparr> current = 0x200000, mask = 0x600000, ply = 2 \<rparr>"
  unfolding play_col_empty_3
  by (simp add: play_col_def move_bit_def bottom_mask_col_eq column_mask_col_eq)

lemma reachable_3_3: "reachable (play_col (play_col empty_position 3) 3)"
proof -
  have w: "(3 :: nat) < WIDTH"
    by (simp add: WIDTH_def)
  have "can_play empty_position 3"
    by (simp add: can_play_def empty_position_def)
  with reachable_empty w have r: "reachable (play_col empty_position 3)"
    by (rule reachable_play)
  have "can_play (play_col empty_position 3) 3"
    by (simp add: play_col_empty_3 can_play_def top_mask_col_def HEIGHT_def)
  with r w show ?thesis
    by (rule reachable_play)
qed

text \<open>C8: every position reachable from the empty position by \<open>play_col\<close> on playable
  columns satisfies the data-model invariants: \<open>current\<close> is a subset of \<open>mask\<close>, no bit
  outside the 42 playable cells is set, every column's guard bit is zero, the number of
  bits of \<open>mask\<close> is \<open>ply\<close>, and in every column an occupied row \<open>r\<close> has row \<open>r - 1\<close>
  occupied.\<close>

theorem reachable_invariants:
  "reachable p \<Longrightarrow>
     current p AND NOT (mask p) = 0
     \<and> mask p AND NOT board_mask = 0
     \<and> current p AND NOT board_mask = 0
     \<and> (\<forall>c \<in> {0..<WIDTH}. \<not> bit (mask p) (cell c HEIGHT) \<and> \<not> bit (current p) (cell c HEIGHT))
     \<and> int (popcount (mask p)) = ply p
     \<and> (\<forall>c \<in> {0..<WIDTH}. \<forall>r \<in> {1..<HEIGHT}.
           bit (mask p) (cell c r) \<longrightarrow> bit (mask p) (cell c (r - 1)))"
  using reachable_invariants_aux [of p] unfolding invariants_def by blast

theorem reachable_invariants_witness:
  "reachable (play_col (play_col empty_position 3) 3)
   \<and> int (popcount (mask (play_col (play_col empty_position 3) 3)))
       = ply (play_col (play_col empty_position 3) 3)
   \<and> ply (play_col (play_col empty_position 3) 3) = 2"
  using reachable_invariants [OF reachable_3_3] reachable_3_3
  by (simp add: play_col_3_3)

section \<open>The position key\<close>

text \<open>C5: \<open>position_key\<close>, defined as \<open>current + mask\<close>, is injective over the positions
  that satisfy the data-model invariants: equal keys imply equal \<open>current\<close> and equal
  \<open>mask\<close>.\<close>

theorem position_key_injective:
  "invariants p \<Longrightarrow> invariants p' \<Longrightarrow> position_key p = position_key p'
     \<Longrightarrow> current p = current p' \<and> mask p = mask p'"
  by (rule key_injective_aux)

lemmas play_eval = play_col_def move_bit_def empty_position_def bottom_mask_col_eq column_mask_col_eq
  can_play_def top_mask_col_def HEIGHT_def

lemma pos_012: "play_col (play_col (play_col empty_position 0) 1) 2 = \<lparr> current = 128, mask = 16513, ply = 3 \<rparr>"
  by (simp add: play_eval)

lemma pos_210: "play_col (play_col (play_col empty_position 2) 1) 0 = \<lparr> current = 128, mask = 16513, ply = 3 \<rparr>"
  by (simp add: play_eval)

lemma inv_012: "invariants (play_col (play_col (play_col empty_position 0) 1) 2)"
  by (intro invariants_play_col invariants_empty) (simp_all add: play_eval)

lemma inv_210: "invariants (play_col (play_col (play_col empty_position 2) 1) 0)"
  by (intro invariants_play_col invariants_empty) (simp_all add: play_eval)

theorem position_key_injective_witness:
  "invariants (play_col (play_col (play_col empty_position 0) 1) 2)
   \<and> invariants (play_col (play_col (play_col empty_position 2) 1) 0)
   \<and> position_key (play_col (play_col (play_col empty_position 0) 1) 2)
       = position_key (play_col (play_col (play_col empty_position 2) 1) 0)
   \<and> current (play_col (play_col (play_col empty_position 0) 1) 2)
       = current (play_col (play_col (play_col empty_position 2) 1) 0)
   \<and> mask (play_col (play_col (play_col empty_position 0) 1) 2)
       = mask (play_col (play_col (play_col empty_position 2) 1) 0)"
proof -
  have k: "position_key (play_col (play_col (play_col empty_position 0) 1) 2)
       = position_key (play_col (play_col (play_col empty_position 2) 1) 0)"
    unfolding pos_012 pos_210 ..
  show ?thesis
    using position_key_injective [OF inv_012 inv_210 k] inv_012 inv_210 k by simp
qed

section \<open>Moves that do not lose at once\<close>

lemma and_xor_split:
  fixes r b m :: u64
  assumes "m AND NOT b = 0"
  shows "r AND (b XOR m) = (r AND (b XOR 0)) AND NOT m"
proof (rule bit_eqI)
  fix k
  from assms have "\<not> bit (m AND NOT b) k" by simp
  then have "bit m k \<longrightarrow> bit b k"
    using bit_u64_less [of m k] by (simp add: bit_and_iff bit_not_iff)
  then show "bit (r AND (b XOR m)) k = bit ((r AND (b XOR 0)) AND NOT m) k"
    using bit_u64_less [of r k] by (auto simp add: bit_and_iff bit_xor_iff bit_not_iff)
qed

lemma winning_positions_split:
  assumes "msk AND NOT board_mask = 0"
  shows "compute_winning_positions x msk = compute_winning_positions x 0 AND NOT msk"
  unfolding compute_winning_positions_def Let_def
  using assms by (rule and_xor_split)

lemma and_xor_zero_in:
  fixes r b :: u64
  shows "bit (r AND (b XOR 0)) k \<Longrightarrow> bit b k"
  by (simp add: bit_and_iff)

lemma winning_positions_in_board:
  "bit (compute_winning_positions x 0) k \<Longrightarrow> bit board_mask k"
  unfolding compute_winning_positions_def Let_def
  by (rule and_xor_zero_in)

lemma bit_winning_positions:
  assumes "invariants p"
  shows "bit (compute_winning_positions x (mask p)) k \<longleftrightarrow>
           bit (compute_winning_positions x 0) k \<and> \<not> bit (mask p) k"
proof -
  from assms have "mask p AND NOT board_mask = 0"
    by (simp add: invariants_def)
  then have "compute_winning_positions x (mask p) = compute_winning_positions x 0 AND NOT (mask p)"
    by (rule winning_positions_split)
  then show ?thesis
    using bit_u64_less [of "compute_winning_positions x 0" k]
    by (auto simp add: bit_and_iff bit_not_iff)
qed

lemma can_win_next_iff:
  assumes "invariants p"
  shows "can_win_next p \<longleftrightarrow>
           (\<exists>k. bit (compute_winning_positions (current p) 0) k \<and> \<not> bit (mask p) k
                \<and> (k mod 7 = 0 \<or> bit (mask p) (k - 1)))"
proof -
  define W where "W = compute_winning_positions (current p) (mask p)"
  define P where "P = (mask p + bottom_mask) AND board_mask"
  have step: "bit W k \<and> bit P k \<longleftrightarrow>
      bit (compute_winning_positions (current p) 0) k \<and> \<not> bit (mask p) k
        \<and> (k mod 7 = 0 \<or> bit (mask p) (k - 1))" for k
  proof -
    have "k < 49 \<and> k mod 7 \<noteq> 6" if "bit (compute_winning_positions (current p) 0) k"
      using winning_positions_in_board [OF that] by (simp add: bit_board_mask)
    then show ?thesis
      unfolding W_def P_def bit_winning_positions [OF assms] bit_possible [OF assms]
      by blast
  qed
  have "can_win_next p \<longleftrightarrow> W AND P \<noteq> 0"
    by (simp add: can_win_next_def Let_def W_def P_def)
  also have "\<dots> \<longleftrightarrow> (\<exists>k. bit (W AND P) k)"
    using u64_eq_0_iff [of "W AND P"] by blast
  also have "\<dots> \<longleftrightarrow> (\<exists>k. bit W k \<and> bit P k)"
    by (simp add: bit_and_iff)
  finally show ?thesis
    unfolding step .
qed

lemma two_bits:
  fixes x :: u64
  assumes "x AND (x - 1) \<noteq> 0"
  shows "\<exists>j. j \<noteq> k \<and> bit x j"
proof (rule ccontr)
  assume "\<not> (\<exists>j. j \<noteq> k \<and> bit x j)"
  then have only: "bit x j \<Longrightarrow> j = k" for j by blast
  show False
  proof (cases "bit x k")
    case False
    with only have "x = 0"
      unfolding u64_eq_0_iff by blast
    with assms show False by simp
  next
    case True
    then have "k < 64" by (rule bit_u64_less)
    have x: "x = 2 ^ k"
    proof (rule bit_eqI)
      fix j
      show "bit x j = bit (2 ^ k :: u64) j"
      proof (cases "j = k")
        case True
        with \<open>bit x k\<close> \<open>k < 64\<close> show ?thesis by (simp add: bit_exp_u64)
      next
        case False
        with only [of j] show ?thesis by (auto simp add: bit_exp_u64)
      qed
    qed
    have e: "(2 ^ k :: u64) - 1 = semiring_bit_operations_class.mask k"
      by (simp add: mask_eq_exp_minus_1)
    have "(2 ^ k :: u64) AND semiring_bit_operations_class.mask k = 0"
      by (rule bit_eqI) (auto simp add: bit_and_iff bit_exp_u64 bit_mask_iff)
    then have "x AND (x - 1) = 0"
      unfolding x e .
    with assms show False ..
  qed
qed

lemma no_safe_move_loses_aux:
  assumes inv: "invariants p" and nl: "non_losing_moves p = 0"
    and col: "col < 7" and play: "can_play p col"
  shows "can_win_next (play_col p col)"
proof -
  obtain h where h: "h < 6" "move_bit p col = 2 ^ (7 * col + h)"
    "\<not> bit (mask p) (7 * col + h)" "\<forall>r<h. bit (mask p) (7 * col + r)"
    using inv col play by (rule move_bit_single)
  define k0 where "k0 = 7 * col + h"
  define q where "q = play_col p col"
  define W where "W = opponent_winning_positions p"
  define P where "P = (mask p + bottom_mask) AND board_mask"
  have invq: "invariants q"
    unfolding q_def using inv col play by (rule invariants_play_col)
  have k0_64: "k0 < 64" using col h(1) by (simp add: k0_def)
  have q_cur: "current q = current p XOR mask p"
    and q_mask: "mask q = mask p OR 2 ^ k0"
    by (simp_all add: q_def play_col_def Let_def h(2) k0_def)
  have bit_q: "bit (mask q) j \<longleftrightarrow> bit (mask p) j \<or> j = k0" for j
    unfolding q_mask bit_or_iff bit_exp_u64 using k0_64 by auto
  have bit_W: "bit W j \<longleftrightarrow> bit (compute_winning_positions (current q) 0) j \<and> \<not> bit (mask p) j" for j
    unfolding W_def opponent_winning_positions_def q_cur by (rule bit_winning_positions [OF inv])
  have bit_P: "bit P j \<longleftrightarrow> j < 49 \<and> j mod 7 \<noteq> 6 \<and> \<not> bit (mask p) j
      \<and> (j mod 7 = 0 \<or> bit (mask p) (j - 1))" for j
    unfolding P_def by (rule bit_possible [OF inv])
  have k0_P: "bit P k0"
  proof -
    have "h = 0 \<or> bit (mask p) (7 * col + (h - 1))"
      using h(4) by (cases h) auto
    then have "k0 mod 7 = 0 \<or> bit (mask p) (k0 - 1)"
      unfolding k0_def using h(1) by (cases h) auto
    with h(1,3) col show ?thesis
      unfolding bit_P by (simp add: k0_def)
  qed
  text \<open>A threat of the opponent that stays playable after the move.\<close>
  have other: "can_win_next q" if "bit W j" and "bit P j" and "j \<noteq> k0" for j
  proof -
    from that have "bit (compute_winning_positions (current q) 0) j \<and> \<not> bit (mask q) j
        \<and> (j mod 7 = 0 \<or> bit (mask q) (j - 1))"
      by (auto simp add: bit_W bit_P bit_q)
    then have "\<exists>k. bit (compute_winning_positions (current q) 0) k \<and> \<not> bit (mask q) k
        \<and> (k mod 7 = 0 \<or> bit (mask q) (k - 1))"
      by (rule exI)
    then show ?thesis
      by (simp only: can_win_next_iff [OF invq])
  qed
  text \<open>A threat of the opponent directly above the cell played.\<close>
  have above: "can_win_next q" if "bit W (Suc k0)"
  proof -
    from that have "bit (compute_winning_positions (current q) 0) (Suc k0) \<and> \<not> bit (mask q) (Suc k0)
        \<and> (Suc k0 mod 7 = 0 \<or> bit (mask q) (Suc k0 - 1))"
      by (simp add: bit_W bit_q)
    then have "\<exists>k. bit (compute_winning_positions (current q) 0) k \<and> \<not> bit (mask q) k
        \<and> (k mod 7 = 0 \<or> bit (mask q) (k - 1))"
      by (rule exI)
    then show ?thesis
      by (simp only: can_win_next_iff [OF invq])
  qed
  define forced where "forced = P AND W"
  from nl have cases:
    "(forced \<noteq> 0 \<and> forced AND (forced - 1) \<noteq> 0)
     \<or> (forced \<noteq> 0 \<and> forced AND NOT (drop_bit 1 W) = 0)
     \<or> (forced = 0 \<and> P AND NOT (drop_bit 1 W) = 0)"
    unfolding non_losing_moves_def Let_def forced_def P_def W_def
    by (auto split: if_splits)
  have bit_forced: "bit forced j \<longleftrightarrow> bit P j \<and> bit W j" for j
    unfolding forced_def bit_and_iff ..
  from cases show ?thesis
    unfolding q_def [symmetric]
  proof (elim disjE conjE)
    assume "forced AND (forced - 1) \<noteq> 0"
    then obtain j where "j \<noteq> k0" "bit forced j"
      using two_bits [of forced k0] by blast
    then show "can_win_next q"
      using other [of j] by (simp add: bit_forced)
  next
    assume f: "forced \<noteq> 0" and b: "forced AND NOT (drop_bit 1 W) = 0"
    from f obtain j where j: "bit forced j"
      unfolding u64_eq_0_iff by blast
    show "can_win_next q"
    proof (cases "j = k0")
      case False
      with j show ?thesis
        using other [of j] by (simp add: bit_forced)
    next
      case True
      from b have "\<not> bit (forced AND NOT (drop_bit 1 W)) k0"
        by simp
      with j True k0_64 have "bit W (Suc k0)"
        by (simp add: bit_and_iff bit_not_iff bit_drop_bit_eq)
      then show ?thesis by (rule above)
    qed
  next
    assume b: "P AND NOT (drop_bit 1 W) = 0"
    then have "\<not> bit (P AND NOT (drop_bit 1 W)) k0"
      by simp
    with k0_P k0_64 have "bit W (Suc k0)"
      by (simp add: bit_and_iff bit_not_iff bit_drop_bit_eq)
    then show "can_win_next q" by (rule above)
  qed
qed

lemma double_threat_eq: "double_threat = \<lparr> current = 4227072, mask = 274776064, ply = 5 \<rparr>"
  unfolding double_threat_def by (simp add: play_eval)

lemma double_threat_invariants: "invariants double_threat"
  unfolding double_threat_def
  by (intro invariants_play_col invariants_empty) (simp_all add: play_eval)

lemma double_threat_no_move: "non_losing_moves double_threat = 0"
  unfolding double_threat_eq
  by (simp add: non_losing_moves_def opponent_winning_positions_def compute_winning_positions_def
      board_mask_val bottom_mask_val HEIGHT_def)

section \<open>The line detector and the rule of the game\<close>

lemma winning_positions_directions:
  "compute_winning_positions x m =
     (vertical x OR direction 7 x OR direction 6 x OR direction 8 x) AND (board_mask XOR m)"
  unfolding compute_winning_positions_def Let_def HEIGHT_def direction_def vertical_def
  by (simp add: ac_simps)

lemma bit_push_u64: "bit (push_bit n (x :: u64)) k \<longleftrightarrow> n \<le> k \<and> k < 64 \<and> bit x (k - n)"
  unfolding bit_push_bit_iff by auto

lemma bit_drop_u64: "bit (drop_bit n (x :: u64)) k \<longleftrightarrow> bit x (k + n)"
  by (simp add: bit_drop_bit_eq add.commute)

lemma bit_direction:
  "bit (direction s x) k \<longleftrightarrow>
     k < 64 \<and>
     ((3 * s \<le> k \<and> bit x (k - s) \<and> bit x (k - 2 * s) \<and> bit x (k - 3 * s))
      \<or> (2 * s \<le> k \<and> bit x (k - s) \<and> bit x (k - 2 * s) \<and> bit x (k + s))
      \<or> (s \<le> k \<and> bit x (k + s) \<and> bit x (k + 2 * s) \<and> bit x (k - s))
      \<or> (bit x (k + s) \<and> bit x (k + 2 * s) \<and> bit x (k + 3 * s)))"
proof -
  have "k < 64" if "bit x (k + s)"
    using bit_u64_less [OF that] by simp
  then show ?thesis
    unfolding direction_def bit_or_iff bit_and_iff bit_push_u64 bit_drop_u64
    by auto
qed

lemma bit_vertical:
  "bit (vertical x) k \<longleftrightarrow> k < 64 \<and> 3 \<le> k \<and> bit x (k - 1) \<and> bit x (k - 2) \<and> bit x (k - 3)"
  unfolding vertical_def bit_and_iff bit_push_u64 by auto

lemma upt_4: "[0..<4] = [0, 1, 2, 3]"
  by (simp add: upt_rec)

lemma four_lines_at:
  "l \<in> set four_lines \<longleftrightarrow> (\<exists>c\<in>{0..<WIDTH}. \<exists>r\<in>{0..<HEIGHT}. l \<in> set (lines_at c r))"
proof -
  have e: "four_lines = concat (map (\<lambda>c. concat (map (lines_at c) [0..<HEIGHT])) [0..<WIDTH])"
    unfolding four_lines_def lines_at_def ..
  show ?thesis
    unfolding e by auto
qed

lemma in_lines_at:
  "l \<in> set (lines_at c r) \<longleftrightarrow>
     (c + 3 < 7 \<and> l = [cell c r, cell (c + 1) r, cell (c + 2) r, cell (c + 3) r])
     \<or> (r + 3 < 6 \<and> l = [cell c r, cell c (r + 1), cell c (r + 2), cell c (r + 3)])
     \<or> (c + 3 < 7 \<and> r + 3 < 6
         \<and> l = [cell c r, cell (c + 1) (r + 1), cell (c + 2) (r + 2), cell (c + 3) (r + 3)])
     \<or> (c + 3 < 7 \<and> 3 \<le> r
         \<and> l = [cell c r, cell (c + 1) (r - 1), cell (c + 2) (r - 2), cell (c + 3) (r - 3)])"
  unfolding lines_at_def upt_4
  by (auto simp add: WIDTH_def HEIGHT_def)

lemma in_four_lines:
  "l \<in> set four_lines \<longleftrightarrow>
     (\<exists>c<7. \<exists>r<6.
        (c + 3 < 7 \<and> l = [cell c r, cell (c + 1) r, cell (c + 2) r, cell (c + 3) r])
        \<or> (r + 3 < 6 \<and> l = [cell c r, cell c (r + 1), cell c (r + 2), cell c (r + 3)])
        \<or> (c + 3 < 7 \<and> r + 3 < 6
            \<and> l = [cell c r, cell (c + 1) (r + 1), cell (c + 2) (r + 2), cell (c + 3) (r + 3)])
        \<or> (c + 3 < 7 \<and> 3 \<le> r
            \<and> l = [cell c r, cell (c + 1) (r - 1), cell (c + 2) (r - 2), cell (c + 3) (r - 3)]))"
  unfolding four_lines_at in_lines_at
  by (simp add: WIDTH_def HEIGHT_def Bex_def)

lemma line_of_cells:
  assumes s: "s = 1 \<or> s = 6 \<or> s = 7 \<or> s = 8"
    and b: "board_cell a" "board_cell (a + s)" "board_cell (a + 2 * s)" "board_cell (a + 3 * s)"
  shows "[a, a + s, a + 2 * s, a + 3 * s] \<in> set four_lines"
proof -
  define c where "c = a div 7"
  define r where "r = a mod 7"
  have a: "a = r + 7 * c" and r7: "r < 7"
    by (simp_all add: c_def r_def)
  from b(1) have r6: "r < 6" and c7: "c < 7"
    unfolding board_cell_def a using r7 by auto
  have rcases: "r = 0 \<or> r = 1 \<or> r = 2 \<or> r = 3 \<or> r = 4 \<or> r = 5"
    using r6 by linarith
  from s show ?thesis
  proof (elim disjE)
    assume s1: "s = 1"
    from rcases b(2,3,4) have "r + 3 < 6"
      by (elim disjE) (simp_all add: board_cell_def a s1)
    then have "[a, a + s, a + 2 * s, a + 3 * s]
        = [cell c r, cell c (r + 1), cell c (r + 2), cell c (r + 3)]"
      by (simp add: cell_eq a s1)
    with c7 r6 \<open>r + 3 < 6\<close> show ?thesis
      unfolding in_four_lines by blast
  next
    assume s6: "s = 6"
    from rcases b(2,3,4) have r3: "3 \<le> r"
      by (elim disjE) (simp_all add: board_cell_def a s6)
    from b(4) r3 have c3: "c + 3 < 7"
      unfolding board_cell_def a s6 by simp
    from r3 have "[a, a + s, a + 2 * s, a + 3 * s]
        = [cell c r, cell (c + 1) (r - 1), cell (c + 2) (r - 2), cell (c + 3) (r - 3)]"
      by (simp add: cell_eq a s6)
    with c7 r6 \<open>3 \<le> r\<close> c3 show ?thesis
      unfolding in_four_lines by blast
  next
    assume s7: "s = 7"
    from b(4) have c3: "c + 3 < 7"
      unfolding board_cell_def a s7 by simp
    have "[a, a + s, a + 2 * s, a + 3 * s]
        = [cell c r, cell (c + 1) r, cell (c + 2) r, cell (c + 3) r]"
      by (simp add: cell_eq a s7)
    with c7 r6 c3 show ?thesis
      unfolding in_four_lines by blast
  next
    assume s8: "s = 8"
    from rcases b(2,3,4) have r3: "r + 3 < 6"
      by (elim disjE) (simp_all add: board_cell_def a s8)
    from b(4) have c3: "c + 3 < 7"
      unfolding board_cell_def a s8 by simp
    have "[a, a + s, a + 2 * s, a + 3 * s]
        = [cell c r, cell (c + 1) (r + 1), cell (c + 2) (r + 2), cell (c + 3) (r + 3)]"
      by (simp add: cell_eq a s8)
    with c7 r6 c3 r3 show ?thesis
      unfolding in_four_lines by blast
  qed
qed

lemma has_four_iff: "has_four b \<longleftrightarrow> (\<exists>l\<in>set four_lines. \<forall>j\<in>set l. bit b j)"
  by (simp add: has_four_def list_ex_iff list_all_iff)

lemma bit_board_cell: "bit board_mask k \<longleftrightarrow> board_cell k"
  by (simp add: bit_board_mask board_cell_def)

lemma within_board:
  assumes "x AND NOT board_mask = 0" and "bit x j"
  shows "board_cell j"
proof -
  from assms(1) have "\<not> bit (x AND NOT board_mask) j" by simp
  with assms(2) show ?thesis
    using bit_u64_less [of x j] by (simp add: bit_and_iff bit_not_iff bit_board_cell)
qed

text \<open>Four board cells in a line, each the cell \<open>k\<close> or a stone of \<open>x\<close>: with a stone on
  \<open>k\<close>, \<open>x\<close> has four in a line.\<close>

lemma four_from_cells:
  assumes s: "s = 1 \<or> s = 6 \<or> s = 7 \<or> s = 8"
    and xb: "x AND NOT board_mask = 0" and k: "board_cell k"
    and c: "a = k \<or> bit x a" "a + s = k \<or> bit x (a + s)"
      "a + 2 * s = k \<or> bit x (a + 2 * s)" "a + 3 * s = k \<or> bit x (a + 3 * s)"
  shows "has_four (x OR 2 ^ k)"
proof -
  have b: "board_cell j" if "j = k \<or> bit x j" for j
    using that k within_board [OF xb] by blast
  have "[a, a + s, a + 2 * s, a + 3 * s] \<in> set four_lines"
    using s b [OF c(1)] b [OF c(2)] b [OF c(3)] b [OF c(4)] by (rule line_of_cells)
  moreover have "k < 64"
    using k by (simp add: board_cell_def)
  then have "bit (x OR 2 ^ k) j" if "j = k \<or> bit x j" for j
    using that by (auto simp add: bit_or_iff bit_exp_u64)
  with c have "\<forall>j\<in>set [a, a + s, a + 2 * s, a + 3 * s]. bit (x OR 2 ^ k) j"
    by simp
  ultimately show ?thesis
    unfolding has_four_iff by blast
qed

lemma direction_sound:
  assumes s: "s = 1 \<or> s = 6 \<or> s = 7 \<or> s = 8"
    and xb: "x AND NOT board_mask = 0" and k: "board_cell k"
    and d: "bit (direction s x) k"
  shows "has_four (x OR 2 ^ k)"
proof -
  from d consider
      (below) "3 * s \<le> k" "bit x (k - s)" "bit x (k - 2 * s)" "bit x (k - 3 * s)"
    | (third) "2 * s \<le> k" "bit x (k - s)" "bit x (k - 2 * s)" "bit x (k + s)"
    | (second) "s \<le> k" "bit x (k + s)" "bit x (k + 2 * s)" "bit x (k - s)"
    | (first) "bit x (k + s)" "bit x (k + 2 * s)" "bit x (k + 3 * s)"
    unfolding bit_direction by blast
  then show ?thesis
  proof cases
    case below
    define a where "a = k - 3 * s"
    have e: "a + s = k - 2 * s" "a + 2 * s = k - s" "a + 3 * s = k"
      using below(1) by (simp_all add: a_def)
    show ?thesis
      using s xb k
    proof (rule four_from_cells [of s x k a])
      show "a = k \<or> bit x a" using below(4) by (simp add: a_def)
      show "a + s = k \<or> bit x (a + s)" using below(3) by (simp add: e)
      show "a + 2 * s = k \<or> bit x (a + 2 * s)" using below(2) by (simp add: e)
      show "a + 3 * s = k \<or> bit x (a + 3 * s)" by (simp add: e)
    qed
  next
    case third
    define a where "a = k - 2 * s"
    have e: "a + s = k - s" "a + 2 * s = k" "a + 3 * s = k + s"
      using third(1) by (simp_all add: a_def)
    show ?thesis
      using s xb k
    proof (rule four_from_cells [of s x k a])
      show "a = k \<or> bit x a" using third(3) by (simp add: a_def)
      show "a + s = k \<or> bit x (a + s)" using third(2) by (simp add: e)
      show "a + 2 * s = k \<or> bit x (a + 2 * s)" by (simp add: e)
      show "a + 3 * s = k \<or> bit x (a + 3 * s)" using third(4) by (simp add: e)
    qed
  next
    case second
    define a where "a = k - s"
    have e: "a + s = k" "a + 2 * s = k + s" "a + 3 * s = k + 2 * s"
      using second(1) by (simp_all add: a_def)
    show ?thesis
      using s xb k
    proof (rule four_from_cells [of s x k a])
      show "a = k \<or> bit x a" using second(4) by (simp add: a_def)
      show "a + s = k \<or> bit x (a + s)" by (simp add: e)
      show "a + 2 * s = k \<or> bit x (a + 2 * s)" using second(2) by (simp add: e)
      show "a + 3 * s = k \<or> bit x (a + 3 * s)" using second(3) by (simp add: e)
    qed
  next
    case first
    show ?thesis
      using s xb k
    proof (rule four_from_cells [of s x k k])
      show "k = k \<or> bit x k" by simp
      show "k + s = k \<or> bit x (k + s)" using first(1) by simp
      show "k + 2 * s = k \<or> bit x (k + 2 * s)" using first(2) by simp
      show "k + 3 * s = k \<or> bit x (k + 3 * s)" using first(3) by simp
    qed
  qed
qed

lemma vertical_sound:
  assumes xb: "x AND NOT board_mask = 0" and k: "board_cell k"
    and d: "bit (vertical x) k"
  shows "has_four (x OR 2 ^ k)"
proof -
  from d have v: "3 \<le> k" "bit x (k - 1)" "bit x (k - 2)" "bit x (k - 3)"
    unfolding bit_vertical by simp_all
  define a where "a = k - 3"
  have e: "a + 1 = k - 2" "a + 2 * 1 = k - 1" "a + 3 * 1 = k"
    using v(1) by (simp_all add: a_def)
  have "(1 :: nat) = 1 \<or> (1 :: nat) = 6 \<or> (1 :: nat) = 7 \<or> (1 :: nat) = 8" by simp
  then show ?thesis
    using xb k
  proof (rule four_from_cells [of 1 x k a])
    show "a = k \<or> bit x a" using v(4) by (simp add: a_def)
    show "a + 1 = k \<or> bit x (a + 1)" using v(3) by (simp only: e) simp
    show "a + 2 * 1 = k \<or> bit x (a + 2 * 1)" using v(2) by (simp only: e) simp
    show "a + 3 * 1 = k \<or> bit x (a + 3 * 1)" by (simp only: e) simp
  qed
qed

text \<open>A cell the line detector reports completes four in a line for the stones \<open>x\<close>.\<close>

lemma winning_cell_sound:
  assumes xb: "x AND NOT board_mask = 0" and mb: "m AND NOT board_mask = 0"
    and w: "bit (compute_winning_positions x m) k"
  shows "has_four (x OR 2 ^ k)"
proof -
  from w have e: "bit (board_mask XOR m) k"
    and d: "bit (vertical x) k \<or> bit (direction 7 x) k \<or> bit (direction 6 x) k \<or> bit (direction 8 x) k"
    unfolding winning_positions_directions bit_and_iff bit_or_iff by blast+
  have "bit m k \<longrightarrow> bit board_mask k"
    using within_board [OF mb, of k] by (simp add: bit_board_cell)
  with e have k: "board_cell k"
    by (auto simp add: bit_xor_iff bit_board_cell)
  from d show ?thesis
  proof (elim disjE)
    assume "bit (vertical x) k"
    with xb k show ?thesis by (rule vertical_sound)
  next
    assume "bit (direction 7 x) k"
    then show ?thesis by (intro direction_sound [of 7 x k] xb k) simp_all
  next
    assume "bit (direction 6 x) k"
    then show ?thesis by (intro direction_sound [of 6 x k] xb k) simp_all
  next
    assume "bit (direction 8 x) k"
    then show ?thesis by (intro direction_sound [of 8 x k] xb k) simp_all
  qed
qed

lemma direction_complete:
  assumes s: "0 < s" and k64: "k < 64"
    and k: "k = a \<or> k = a + s \<or> k = a + 2 * s \<or> k = a + 3 * s"
    and c: "a = k \<or> bit x a" "a + s = k \<or> bit x (a + s)"
      "a + 2 * s = k \<or> bit x (a + 2 * s)" "a + 3 * s = k \<or> bit x (a + 3 * s)"
  shows "bit (direction s x) k"
  using k
proof (elim disjE)
  assume e: "k = a"
  have "bit x (a + s)" "bit x (a + 2 * s)" "bit x (a + 3 * s)"
    using c(2,3,4) e s by simp_all
  then have "bit x (k + s) \<and> bit x (k + 2 * s) \<and> bit x (k + 3 * s)"
    unfolding e by simp
  with k64 show ?thesis
    unfolding bit_direction by blast
next
  assume e: "k = a + s"
  have eq: "k + s = a + 2 * s" "k + 2 * s = a + 3 * s" "k - s = a" "s \<le> k"
    using e by simp_all
  have "bit x a" "bit x (a + 2 * s)" "bit x (a + 3 * s)"
    using c(1,3,4) e s by simp_all
  then have "s \<le> k \<and> bit x (k + s) \<and> bit x (k + 2 * s) \<and> bit x (k - s)"
    using eq(4) unfolding eq(1-3) by simp
  with k64 show ?thesis
    unfolding bit_direction by blast
next
  assume e: "k = a + 2 * s"
  have eq: "k + s = a + 3 * s" "k - s = a + s" "k - 2 * s = a" "2 * s \<le> k"
    using e by simp_all
  have "bit x a" "bit x (a + s)" "bit x (a + 3 * s)"
    using c(1,2,4) e s by simp_all
  then have "2 * s \<le> k \<and> bit x (k - s) \<and> bit x (k - 2 * s) \<and> bit x (k + s)"
    using eq(4) unfolding eq(1-3) by simp
  with k64 show ?thesis
    unfolding bit_direction by blast
next
  assume e: "k = a + 3 * s"
  have eq: "k - s = a + 2 * s" "k - 2 * s = a + s" "k - 3 * s = a" "3 * s \<le> k"
    using e by simp_all
  have "bit x a" "bit x (a + s)" "bit x (a + 2 * s)"
    using c(1,2,3) e s by simp_all
  then have "3 * s \<le> k \<and> bit x (k - s) \<and> bit x (k - 2 * s) \<and> bit x (k - 3 * s)"
    using eq(4) unfolding eq(1-3) by simp
  with k64 show ?thesis
    unfolding bit_direction by blast
qed

text \<open>A cell \<open>k\<close> of the board that is empty and has no stone of \<open>x\<close> above it in its
  column: if a stone there completes a line of four with \<open>x\<close>, the line detector reports
  the cell.\<close>

lemma winning_cell_complete:
  assumes mb: "m AND NOT board_mask = 0" and k: "board_cell k" and nm: "\<not> bit m k"
    and top: "\<And>j. k < j \<Longrightarrow> j div 7 = k div 7 \<Longrightarrow> \<not> bit x j"
    and l: "l \<in> set four_lines" and kl: "k \<in> set l" and full: "\<forall>j\<in>set l. j = k \<or> bit x j"
  shows "bit (compute_winning_positions x m) k"
proof -
  have k64: "k < 64" using k by (simp add: board_cell_def)
  have e: "bit (board_mask XOR m) k"
    using k nm by (simp add: bit_xor_iff bit_board_cell)
  from l obtain c r where cr: "c < 7" "r < 6" and shape:
    "(c + 3 < 7 \<and> l = [cell c r, cell (c + 1) r, cell (c + 2) r, cell (c + 3) r])
     \<or> (r + 3 < 6 \<and> l = [cell c r, cell c (r + 1), cell c (r + 2), cell c (r + 3)])
     \<or> (c + 3 < 7 \<and> r + 3 < 6
         \<and> l = [cell c r, cell (c + 1) (r + 1), cell (c + 2) (r + 2), cell (c + 3) (r + 3)])
     \<or> (c + 3 < 7 \<and> 3 \<le> r
         \<and> l = [cell c r, cell (c + 1) (r - 1), cell (c + 2) (r - 2), cell (c + 3) (r - 3)])"
    unfolding in_four_lines by blast
  define a where "a = r + 7 * c"
  have "bit (vertical x) k \<or> bit (direction 7 x) k \<or> bit (direction 6 x) k \<or> bit (direction 8 x) k"
    using shape
  proof (elim disjE conjE)
    assume "l = [cell c r, cell (c + 1) r, cell (c + 2) r, cell (c + 3) r]"
    then have le: "l = [a, a + 7, a + 2 * 7, a + 3 * 7]"
      by (simp add: cell_eq a_def)
    have "bit (direction 7 x) k"
      using kl full unfolding le by (intro direction_complete [of 7 k a x] k64) auto
    then show ?thesis by simp
  next
    assume "c + 3 < 7" "r + 3 < 6"
      "l = [cell c r, cell (c + 1) (r + 1), cell (c + 2) (r + 2), cell (c + 3) (r + 3)]"
    then have le: "l = [a, a + 8, a + 2 * 8, a + 3 * 8]"
      by (simp add: cell_eq a_def)
    have "bit (direction 8 x) k"
      using kl full unfolding le by (intro direction_complete [of 8 k a x] k64) auto
    then show ?thesis by simp
  next
    assume "c + 3 < 7" "3 \<le> r"
      "l = [cell c r, cell (c + 1) (r - 1), cell (c + 2) (r - 2), cell (c + 3) (r - 3)]"
    then have le: "l = [a, a + 6, a + 2 * 6, a + 3 * 6]"
      by (simp add: cell_eq a_def)
    have "bit (direction 6 x) k"
      using kl full unfolding le by (intro direction_complete [of 6 k a x] k64) auto
    then show ?thesis by simp
  next
    assume r3: "r + 3 < 6" and "l = [cell c r, cell c (r + 1), cell c (r + 2), cell c (r + 3)]"
    then have le: "l = [a, a + 1, a + 2, a + 3]"
      by (simp add: cell_eq a_def)
    have k3: "k = a + 3"
    proof (rule ccontr)
      assume n: "k \<noteq> a + 3"
      with kl have "k < a + 3" and "k = a \<or> k = a + 1 \<or> k = a + 2"
        unfolding le by auto
      moreover have "(r + i + 7 * c) div 7 = c" if "r + i < 7" for i
        using that by simp
      from this [of 0] this [of 1] this [of 2] this [of 3] r3
      have "a div 7 = c" "(a + 1) div 7 = c" "(a + 2) div 7 = c" "(a + 3) div 7 = c"
        unfolding a_def by (simp_all add: ac_simps)
      with \<open>k = a \<or> k = a + 1 \<or> k = a + 2\<close> have "(a + 3) div 7 = k div 7"
        by auto
      ultimately have "\<not> bit x (a + 3)"
        using top by blast
      moreover from full n have "bit x (a + 3)"
        unfolding le by auto
      ultimately show False by simp
    qed
    with full have "3 \<le> k \<and> bit x (k - 1) \<and> bit x (k - 2) \<and> bit x (k - 3)"
      unfolding le by auto
    with k64 have "bit (vertical x) k"
      unfolding bit_vertical by simp
    then show ?thesis by simp
  qed
  with e show ?thesis
    unfolding winning_positions_directions bit_and_iff bit_or_iff by blast
qed

lemma invariants_board:
  assumes "invariants p"
  shows "current p AND NOT board_mask = 0" and "mask p AND NOT board_mask = 0"
  using assms by (simp_all add: invariants_def)

text \<open>The cells of \<open>possible\<close> are the landing cells of the playable columns.\<close>

lemma possible_landing:
  assumes inv: "invariants p" and k: "bit ((mask p + bottom_mask) AND board_mask) k"
  shows "k div 7 < 7 \<and> can_play p (k div 7) \<and> move_bit p (k div 7) = 2 ^ k"
proof -
  define c where "c = k div 7"
  define r where "r = k mod 7"
  from k have f: "k < 49" "k mod 7 \<noteq> 6" "\<not> bit (mask p) k" "k mod 7 = 0 \<or> bit (mask p) (k - 1)"
    unfolding bit_possible [OF inv] by simp_all
  have kcr: "k = 7 * c + r" and c7: "c < 7" and r6: "r < 6"
    using f(1,2) by (simp_all add: c_def r_def)
  have play: "can_play p c"
  proof (rule ccontr)
    assume "\<not> can_play p c"
    then have "bit (mask p) (7 * c + 5)"
      using c7 by (simp add: can_play_iff)
    with inv have "bit (mask p) (7 * c + r)"
      using r6 by (intro column_filled_below [of p c 5 r]) auto
    with f(3) show False by (simp add: kcr)
  qed
  obtain h where h: "h < 6" "move_bit p c = 2 ^ (7 * c + h)"
    using inv c7 play by (rule move_bit_single)
  have "k = 7 * c \<longleftrightarrow> k mod 7 = 0"
    unfolding kcr using r6 by auto
  with f have "bit (move_bit p c) k"
    unfolding bit_move_bit [OF inv c7] using r6 by (simp add: kcr)
  then have "k = 7 * c + h"
    unfolding h(2) bit_exp_u64 by simp
  with h(2) c7 play show ?thesis
    unfolding c_def by simp
qed

lemma landing_possible:
  assumes inv: "invariants p" and c: "c < 7" and play: "can_play p c"
  obtains k where "move_bit p c = 2 ^ k" and "bit ((mask p + bottom_mask) AND board_mask) k"
    and "board_cell k" and "\<not> bit (mask p) k"
    and "\<forall>j. k < j \<longrightarrow> j div 7 = k div 7 \<longrightarrow> \<not> bit (mask p) j"
proof -
  obtain h where h: "h < 6" "move_bit p c = 2 ^ (7 * c + h)"
    "\<not> bit (mask p) (7 * c + h)" "\<forall>r<h. bit (mask p) (7 * c + r)"
    using inv c play by (rule move_bit_single)
  define k where "k = 7 * c + h"
  have "h = 0 \<or> bit (mask p) (7 * c + (h - 1))"
    using h(4) by (cases h) auto
  then have below: "k mod 7 = 0 \<or> bit (mask p) (k - 1)"
    unfolding k_def using h(1) by (cases h) auto
  have cell: "k < 49" "k mod 7 \<noteq> 6"
    using c h(1) by (simp_all add: k_def)
  have poss: "bit ((mask p + bottom_mask) AND board_mask) k"
    unfolding bit_possible [OF inv] using cell below h(3) by (simp add: k_def)
  have nxt: "bit (mask p + bottom_mask) k"
    unfolding bit_next_cells [OF inv] using cell below h(3) by (simp add: k_def)
  have "\<not> bit (mask p) j" if "k < j" "j div 7 = k div 7" for j
    using next_cell_on_top [OF inv nxt that] by simp
  then have top: "\<forall>j. k < j \<longrightarrow> j div 7 = k div 7 \<longrightarrow> \<not> bit (mask p) j"
    by blast
  show ?thesis
    using h(2) poss cell h(3) top
    by (intro that [of k]) (simp_all add: k_def board_cell_def)
qed

text \<open>\<open>can_win_next\<close> and the rule of the game: the side to move has a playable column
  whose stone gives it four in a line.\<close>

lemma can_win_next_has_four:
  assumes inv: "invariants p" and w: "can_win_next p"
  shows "\<exists>c<WIDTH. can_play p c \<and> has_four (current p OR move_bit p c)"
proof -
  define W where "W = compute_winning_positions (current p) (mask p)"
  define P where "P = (mask p + bottom_mask) AND board_mask"
  from w have "W AND P \<noteq> 0"
    by (simp add: can_win_next_def Let_def W_def P_def)
  then obtain k where "bit (W AND P) k"
    using u64_eq_0_iff [of "W AND P"] by blast
  then have bw: "bit W k" and bp: "bit P k"
    by (simp_all add: bit_and_iff)
  from bp have l: "k div 7 < 7 \<and> can_play p (k div 7) \<and> move_bit p (k div 7) = 2 ^ k"
    unfolding P_def by (rule possible_landing [OF inv])
  from bw have "has_four (current p OR 2 ^ k)"
    unfolding W_def by (rule winning_cell_sound [OF invariants_board [OF inv]])
  with l show ?thesis
    by (intro exI [of _ "k div 7"]) (simp add: WIDTH_def)
qed

lemma has_four_can_win_next:
  assumes inv: "invariants p" and c: "c < WIDTH" and play: "can_play p c"
    and four: "has_four (current p OR move_bit p c)" and none: "\<not> has_four (current p)"
  shows "can_win_next p"
proof -
  from c have c7: "c < 7" by (simp add: WIDTH_def)
  obtain k where k: "move_bit p c = 2 ^ k" "bit ((mask p + bottom_mask) AND board_mask) k"
    "board_cell k" "\<not> bit (mask p) k"
    and top: "\<forall>j. k < j \<longrightarrow> j div 7 = k div 7 \<longrightarrow> \<not> bit (mask p) j"
    using inv c7 play by (rule landing_possible)
  have k64: "k < 64" using k(3) by (simp add: board_cell_def)
  from four obtain l where l: "l \<in> set four_lines" "\<forall>j\<in>set l. bit (current p OR 2 ^ k) j"
    unfolding has_four_iff k(1) by blast
  then have full: "\<forall>j\<in>set l. j = k \<or> bit (current p) j"
    by (auto simp add: bit_or_iff bit_exp_u64)
  have kl: "k \<in> set l"
  proof (rule ccontr)
    assume "k \<notin> set l"
    with full have "\<forall>j\<in>set l. bit (current p) j" by auto
    with l(1) none show False
      unfolding has_four_iff by blast
  qed
  have "\<not> bit (current p) j" if "k < j" "j div 7 = k div 7" for j
    using top that current_in_mask [OF inv, of j] by blast
  then have "bit (compute_winning_positions (current p) (mask p)) k"
    using l(1) kl full
    by (intro winning_cell_complete [of "mask p" k "current p" l]
        invariants_board [OF inv] k(3) k(4)) blast+
  with k(2) have "bit (compute_winning_positions (current p) (mask p)
      AND ((mask p + bottom_mask) AND board_mask)) k"
    by (simp add: bit_and_iff)
  then have "compute_winning_positions (current p) (mask p)
      AND ((mask p + bottom_mask) AND board_mask) \<noteq> 0"
    using u64_eq_0_iff by blast
  then show ?thesis
    by (simp add: can_win_next_def Let_def)
qed

section \<open>A position without a safe move\<close>

lemma stacked_three_eq: "stacked_three = \<lparr> current = 7, mask = 270548999, ply = 6 \<rparr>"
  unfolding stacked_three_def by (simp add: play_eval)

lemma stacked_three_reachable: "reachable stacked_three"
  unfolding stacked_three_def
  by (intro reachable_play reachable_empty) (simp_all add: play_eval WIDTH_def)

lemma four_lines_215: "[0, 1, 2, 3] \<in> set four_lines"
proof -
  have "[0, 0 + 1, 0 + 2 * 1, 0 + 3 * 1] \<in> set four_lines"
    by (rule line_of_cells) (simp_all add: board_cell_def)
  then show ?thesis by (simp add: eval_nat_numeral)
qed

text \<open>C4, as the claim states it, fails: at this reachable position \<open>non_losing_moves\<close> is
  0, and the playable column 0 gives the side to move four in a line, so that move does
  not lose.\<close>

theorem no_safe_move_counterexample:
  "reachable stacked_three \<and> non_losing_moves stacked_three = 0 \<and> 0 < WIDTH
   \<and> can_play stacked_three 0
   \<and> has_four (current stacked_three OR move_bit stacked_three 0)"
proof -
  have "non_losing_moves stacked_three = 0"
    unfolding stacked_three_eq
    by (simp add: non_losing_moves_def opponent_winning_positions_def compute_winning_positions_def
        board_mask_val bottom_mask_val HEIGHT_def)
  moreover have "can_play stacked_three 0"
    unfolding stacked_three_eq by (simp add: play_eval)
  moreover have "current stacked_three OR move_bit stacked_three 0 = 15"
    unfolding stacked_three_eq by (simp add: play_eval)
  moreover have "has_four 15"
    unfolding has_four_iff
    by (rule bexI [OF _ four_lines_215]) (simp add: bit_numeral_simps)
  ultimately show ?thesis
    using stacked_three_reachable by (simp add: WIDTH_def)
qed

text \<open>C4, amended with the guard the code applies before every use of
  \<open>non_losing_moves\<close>: for every position that satisfies the data-model invariants and in
  which the side to move cannot win at once (\<open>can_win_next\<close> is false), if
  \<open>non_losing_moves\<close> is 0 then every playable column loses within two plies: the stone
  played completes no four in a line for the mover, and in the position after the move the
  opponent has a playable column whose stone gives the opponent four in a line.\<close>

theorem no_safe_move_loses:
  "invariants p \<Longrightarrow> \<not> can_win_next p \<Longrightarrow> non_losing_moves p = 0 \<Longrightarrow> col < WIDTH
     \<Longrightarrow> can_play p col
     \<Longrightarrow> (\<not> has_four (current p) \<longrightarrow> \<not> has_four (current p OR move_bit p col))
         \<and> (\<exists>c<WIDTH. can_play (play_col p col) c
               \<and> has_four (current (play_col p col) OR move_bit (play_col p col) c))"
proof (intro conjI impI)
  assume inv: "invariants p" and nw: "\<not> can_win_next p" and col: "col < WIDTH"
    and play: "can_play p col" and none: "\<not> has_four (current p)"
  show "\<not> has_four (current p OR move_bit p col)"
    using has_four_can_win_next [OF inv col play _ none] nw by blast
next
  assume inv: "invariants p" and nl: "non_losing_moves p = 0" and col: "col < WIDTH"
    and play: "can_play p col"
  from col have c7: "col < 7" by (simp add: WIDTH_def)
  have "invariants (play_col p col)"
    using inv c7 play by (rule invariants_play_col)
  moreover have "can_win_next (play_col p col)"
    using inv nl c7 play by (rule no_safe_move_loses_aux)
  ultimately show "\<exists>c<WIDTH. can_play (play_col p col) c
      \<and> has_four (current (play_col p col) OR move_bit (play_col p col) c)"
    by (rule can_win_next_has_four)
qed

lemma double_threat_no_win: "\<not> can_win_next double_threat"
  unfolding double_threat_eq
  by (simp add: can_win_next_def compute_winning_positions_def
      board_mask_val bottom_mask_val HEIGHT_def)

lemma double_threat_no_four: "\<not> has_four (current double_threat)"
  unfolding double_threat_eq
  by (simp add: has_four_def four_lines_def cell_eq WIDTH_def HEIGHT_def upt_rec)

theorem no_safe_move_loses_witness:
  "invariants double_threat \<and> \<not> can_win_next double_threat
   \<and> non_losing_moves double_threat = 0 \<and> 0 < WIDTH \<and> can_play double_threat 0
   \<and> \<not> has_four (current double_threat)
   \<and> \<not> has_four (current double_threat OR move_bit double_threat 0)
   \<and> (\<exists>c<WIDTH. can_play (play_col double_threat 0) c
         \<and> has_four (current (play_col double_threat 0) OR move_bit (play_col double_threat 0) c))"
proof -
  have w: "0 < WIDTH" by (simp add: WIDTH_def)
  have c: "can_play double_threat 0"
    unfolding double_threat_eq by (simp add: play_eval)
  show ?thesis
    using no_safe_move_loses [OF double_threat_invariants double_threat_no_win
        double_threat_no_move w c]
      double_threat_invariants double_threat_no_win double_threat_no_move w c
      double_threat_no_four
    by simp
qed

section \<open>What the classifier returns and the enumerator records\<close>

text \<open>What the loop of the classifier leaves in \<open>winning_cols\<close>.\<close>

definition analyze_loop_step :: "Position \<Rightarrow> u64 \<Rightarrow> nat \<Rightarrow> ttable \<times> nat list \<Rightarrow> ttable \<times> nat list" where
  "analyze_loop_step p possible =
     (\<lambda>col (t, winning_cols).
        if \<not> can_play p col then (t, winning_cols)
        else if possible AND column_mask_col col = 0 then (t, winning_cols)
        else let child = play_col p col;
                 (t, r) = solve t child;
                 score = - r
             in if score > 0 then (t, winning_cols @ [col])
                else (t, winning_cols))"

lemma analyze_loop_cols:
  "c \<in> set (snd (fold (analyze_loop_step p possible) cols (t, ws))) \<Longrightarrow>
     c \<in> set ws \<or> (c \<in> set cols \<and> can_play p c \<and> possible AND column_mask_col c \<noteq> 0)"
proof (induction cols arbitrary: t ws)
  case Nil
  then show ?case by simp
next
  case (Cons a cols)
  obtain t' ws' where step: "analyze_loop_step p possible a (t, ws) = (t', ws')"
    by (cases "analyze_loop_step p possible a (t, ws)")
  with Cons.prems have "c \<in> set (snd (fold (analyze_loop_step p possible) cols (t', ws')))"
    by simp
  then have "c \<in> set ws' \<or> (c \<in> set cols \<and> can_play p c \<and> possible AND column_mask_col c \<noteq> 0)"
    by (rule Cons.IH)
  moreover have "c \<in> set ws' \<Longrightarrow> c \<in> set ws \<or> (c = a \<and> can_play p c \<and> possible AND column_mask_col c \<noteq> 0)"
    using step by (auto simp add: analyze_loop_step_def Let_def split: if_splits prod.splits)
  ultimately show ?case by auto
qed

lemma analyze_position_result:
  assumes "analyze_position t p = (t', r)"
  shows "r = - 1 \<or>
         (\<exists>c. r = int c \<and> c < WIDTH \<and> MIN_PLY \<le> ply p \<and> ply p \<le> MAX_PLY \<and> \<not> can_win_next p
              \<and> can_play p c \<and> non_losing_moves p AND column_mask_col c \<noteq> 0
              \<and> \<not> is_obvious_move p c)"
proof (cases "r = - 1")
  case True
  then show ?thesis by simp
next
  case False
  define possible where "possible = non_losing_moves p"
  define res where "res = fold (analyze_loop_step p possible) [0..<WIDTH] (t, [])"
  have unfold: "analyze_position t p =
      (if ply p < MIN_PLY \<or> ply p > MAX_PLY then (t, - 1)
       else if can_win_next p then (t, - 1)
       else if possible = 0 then (t, - 1)
       else if length (snd res) = 1
            then if \<not> is_obvious_move p (snd res ! 0) then (fst res, int (snd res ! 0))
                 else (fst res, - 1)
            else (fst res, - 1))"
    unfolding analyze_position_def possible_def res_def analyze_loop_step_def Let_def
    by (simp add: case_prod_beta)
  from assms False have win: "MIN_PLY \<le> ply p" "ply p \<le> MAX_PLY" "\<not> can_win_next p"
    and one: "length (snd res) = 1" and nob: "\<not> is_obvious_move p (snd res ! 0)"
    and r: "r = int (snd res ! 0)"
    unfolding unfold by (auto split: if_splits)
  from one have "snd res ! 0 \<in> set (snd res)"
    by (cases "snd res") auto
  then have "snd res ! 0 \<in> set [0..<WIDTH] \<and> can_play p (snd res ! 0)
      \<and> possible AND column_mask_col (snd res ! 0) \<noteq> 0"
    unfolding res_def using analyze_loop_cols [of "snd res ! 0" p possible "[0..<WIDTH]" t "[]"]
    by (simp add: res_def)
  with win nob r show ?thesis
    unfolding possible_def by auto
qed

text \<open>The positions the enumerator can come to from \<open>p\<close>, and the entries it records
  there.\<close>

inductive reaches :: "Position \<Rightarrow> Position \<Rightarrow> bool" where
  reaches_refl: "reaches p p"
| reaches_play: "reaches p q \<Longrightarrow> col < WIDTH \<Longrightarrow> can_play q col \<Longrightarrow> reaches p (play_col q col)"

lemma reaches_first:
  assumes "reaches p' q" and "p' = play_col p col" and "col < WIDTH" and "can_play p col"
  shows "reaches p q"
  using assms
proof (induction rule: reaches.induct)
  case (reaches_refl p')
  have "reaches p p" by (rule reaches.reaches_refl)
  then have "reaches p (play_col p col)"
    using reaches_refl.prems(2,3) by (rule reaches_play)
  with reaches_refl.prems(1) show ?case by simp
next
  case (reaches_play p' q c)
  then have "reaches p q" by simp
  then show ?case
    using reaches_play.hyps(2,3) by (rule reaches.reaches_play)
qed

lemma reaches_empty_reachable: "reaches p q \<Longrightarrow> p = empty_position \<Longrightarrow> reachable q"
  by (induction rule: reaches.induct) (auto intro: reachable.intros)

definition recorded :: "Position \<Rightarrow> CriticalEntry \<Rightarrow> bool" where
  "recorded p e \<longleftrightarrow>
     (\<exists>q t t' c. reaches p q \<and> analyze_position t q = (t', int c)
        \<and> e = \<lparr> hash = position_key q, winning_col = word_of_int (int c) \<rparr>)"

definition extends_by :: "Position \<Rightarrow> gen_state \<Rightarrow> gen_state \<Rightarrow> bool" where
  "extends_by p s s' \<longleftrightarrow>
     (\<exists>new. critical_list s' = critical_list s @ new \<and> list_all (recorded p) new)"

lemma extends_by_refl: "extends_by p s s"
  by (simp add: extends_by_def)

lemma extends_by_trans: "extends_by p s s' \<Longrightarrow> extends_by p s' s'' \<Longrightarrow> extends_by p s s''"
  unfolding extends_by_def by (elim exE conjE) (rule exI [of _ "_ @ _"], simp)

lemma extends_by_child:
  assumes "extends_by (play_col p col) s s'" and "col < WIDTH" and "can_play p col"
  shows "extends_by p s s'"
proof -
  have "recorded p e" if "recorded (play_col p col) e" for e
    using that assms(2,3) reaches_first [of "play_col p col" _ p col]
    unfolding recorded_def by blast
  with assms(1) show ?thesis
    unfolding extends_by_def list_all_iff by blast
qed

lemma add_critical_list:
  "add_critical env s h c = Inr s' \<Longrightarrow>
     critical_list s' = critical_list s @ [\<lparr> hash = h, winning_col = word_of_int c \<rparr>]"
  by (auto simp add: add_critical_def Let_def split: if_splits)

lemma analyze_step_extends:
  assumes "analyze_step env p s = Inr s'"
  shows "extends_by p s s'"
proof -
  obtain t r where a: "analyze_position (tt s) p = (t, r)"
    by (cases "analyze_position (tt s) p")
  show ?thesis
  proof (cases "MIN_PLY \<le> ply p \<and> ply p \<le> MAX_PLY \<and> 0 \<le> r")
    case False
    with assms a have "critical_list s' = critical_list s"
      by (auto simp add: analyze_step_def Let_def split: if_splits)
    then show ?thesis by (simp add: extends_by_def)
  next
    case True
    with assms a have "add_critical env (s\<lparr> tt := t \<rparr>) (position_key p) r = Inr s'"
      by (simp add: analyze_step_def Let_def)
    then have l: "critical_list s' = critical_list s @ [\<lparr> hash = position_key p, winning_col = word_of_int r \<rparr>]"
      using add_critical_list by fastforce
    from True analyze_position_result [OF a] obtain c where "r = int c"
      by auto
    with a have "recorded p \<lparr> hash = position_key p, winning_col = word_of_int r \<rparr>"
      unfolding recorded_def using reaches_refl by blast
    with l show ?thesis
      by (simp add: extends_by_def)
  qed
qed

definition child_step :: "environment \<Rightarrow> Position \<Rightarrow> int \<Rightarrow> nat \<Rightarrow> fatal + gen_state \<Rightarrow> fatal + gen_state" where
  "child_step env p depth =
     (\<lambda>col r. case r of
                 Inl f \<Rightarrow> Inl f
               | Inr s \<Rightarrow> if \<not> can_play p col then Inr s
                          else generate_positions env (play_col p col) (depth + 1) s)"

lemma generate_positions_unfold:
  "generate_positions env p depth s =
     (case analyze_step env p s of
        Inl f \<Rightarrow> Inl f
      | Inr s \<Rightarrow> if ply p \<ge> MAX_PLY then Inr s
                 else if can_win_next p then Inr s
                 else fold (child_step env p depth) [0..<WIDTH] (Inr s))"
  unfolding child_step_def by (rule generate_positions.simps)

lemma fold_child_step_Inl: "fold (child_step env p depth) cols (Inl f) = Inl f"
  by (induction cols) (simp_all add: child_step_def)

lemma fold_child_step_extends:
  assumes ih: "\<And>col s s'. col \<in> set cols \<Longrightarrow> can_play p col \<Longrightarrow>
      generate_positions env (play_col p col) (depth + 1) s = Inr s' \<Longrightarrow>
      extends_by (play_col p col) s s'"
    and cols: "set cols \<subseteq> set [0..<WIDTH]"
    and run: "fold (child_step env p depth) cols (Inr s) = Inr s'"
  shows "extends_by p s s'"
  using ih cols run
proof (induction cols arbitrary: s)
  case Nil
  then show ?case by (simp add: extends_by_refl)
next
  case (Cons col cols)
  show ?case
  proof (cases "child_step env p depth col (Inr s)")
    case (Inl f)
    with Cons.prems(3) show ?thesis
      by (simp add: fold_child_step_Inl)
  next
    case (Inr s1)
    have first: "extends_by p s s1"
    proof (cases "can_play p col")
      case False
      with Inr show ?thesis by (simp add: child_step_def extends_by_refl)
    next
      case True
      with Inr have gp: "generate_positions env (play_col p col) (depth + 1) s = Inr s1"
        by (simp add: child_step_def)
      have "col \<in> set (col # cols)" by simp
      then have "extends_by (play_col p col) s s1"
        using True gp by (rule Cons.prems(1))
      moreover from Cons.prems(2) have "col < WIDTH" by simp
      ultimately show ?thesis using True by (rule extends_by_child)
    qed
    have "extends_by p s1 s'"
    proof (rule Cons.IH)
      show "extends_by (play_col p c) u u'"
        if c: "c \<in> set cols" and pl: "can_play p c"
          and gp: "generate_positions env (play_col p c) (depth + 1) u = Inr u'" for c u u'
      proof -
        from c have "c \<in> set (col # cols)" by simp
        then show ?thesis using pl gp by (rule Cons.prems(1))
      qed
      show "set cols \<subseteq> set [0..<WIDTH]"
        using Cons.prems(2) by simp
      show "fold (child_step env p depth) cols (Inr s1) = Inr s'"
        using Cons.prems(3) Inr by simp
    qed
    with first show ?thesis by (rule extends_by_trans)
  qed
qed

lemma generate_positions_extends:
  "generate_positions env p depth s = Inr s' \<Longrightarrow> extends_by p s s'"
proof (induction env p depth s arbitrary: s' rule: generate_positions.induct)
  case (1 env p depth s)
  from "1.prems" obtain s1 where s1: "analyze_step env p s = Inr s1"
    unfolding generate_positions_unfold [of env p depth s] by (auto split: sum.splits)
  then have a: "extends_by p s s1"
    by (rule analyze_step_extends)
  show ?case
  proof (cases "MAX_PLY \<le> ply p \<or> can_win_next p")
    case True
    with "1.prems" s1 have "s' = s1"
      unfolding generate_positions_unfold [of env p depth s] by (auto split: if_splits)
    with a show ?thesis by simp
  next
    case False
    with "1.prems" s1 have run: "fold (child_step env p depth) [0..<WIDTH] (Inr s1) = Inr s'"
      unfolding generate_positions_unfold [of env p depth s] by (auto split: if_splits)
    have "extends_by p s1 s'"
    proof (rule fold_child_step_extends [OF _ _ run])
      show "extends_by (play_col p col) u u'"
        if c: "col \<in> set [0..<WIDTH]" and pl: "can_play p col"
          and gp: "generate_positions env (play_col p col) (depth + 1) u = Inr u'" for col u u'
      proof -
        from False have "\<not> MAX_PLY \<le> ply p" and "\<not> can_win_next p" by simp_all
        moreover from pl have "\<not> \<not> can_play p col" by simp
        ultimately show ?thesis
          using s1 c gp "1.IH" [of s1 col u u'] by blast
      qed
      show "set [0..<WIDTH] \<subseteq> set [0..<WIDTH]" by simp
    qed
    with a show ?thesis by (rule extends_by_trans)
  qed
qed

section \<open>The size of the table\<close>

lemma next_prime_least:
  "is_prime (next_prime n) \<and> n \<le> next_prime n
     \<and> (\<forall>q. n \<le> q \<and> q < next_prime n \<longrightarrow> \<not> is_prime q)"
proof (induction n rule: next_prime.induct)
  case (1 n)
  show ?case
  proof (cases "is_prime n")
    case True
    then have "next_prime n = n"
      by (subst next_prime.simps) simp
    with True show ?thesis by auto
  next
    case False
    then have eq: "next_prime n = next_prime (n + 1)"
      by (subst next_prime.simps) simp
    from False have ih: "is_prime (next_prime (n + 1)) \<and> n + 1 \<le> next_prime (n + 1)
        \<and> (\<forall>q. n + 1 \<le> q \<and> q < next_prime (n + 1) \<longrightarrow> \<not> is_prime q)"
      by (rule 1)
    have "\<not> is_prime q" if "n \<le> q \<and> q < next_prime (n + 1)" for q
    proof (cases "q = n")
      case True
      with False show ?thesis by simp
    next
      case False
      with that have "n + 1 \<le> q \<and> q < next_prime (n + 1)" by simp
      with ih show ?thesis by blast
    qed
    with ih show ?thesis
      unfolding eq by simp
  qed
qed

lemma next_prime_6: "next_prime 6 = 7"
proof -
  have a: "\<not> is_prime 6" by (simp add: is_prime_def)
  have "is_prime_loop 7 3" by (rule loop_stop) simp
  then have b: "is_prime 7" by (simp add: is_prime_def)
  have "next_prime 6 = next_prime (6 + 1)"
    using a by (subst next_prime.simps) simp
  also have "\<dots> = 7"
    using b by (subst next_prime.simps) simp
  finally show ?thesis .
qed

text \<open>C9: for every entry count \<open>N \<ge> 1\<close>, the table size the serializer computes, the
  result of \<open>next_prime\<close> on \<open>2 * N\<close> with the trial-division test \<open>is_prime\<close>, is a prime
  number, is at least \<open>2 * N\<close>, and no number from \<open>2 * N\<close> up to it is a prime number: it is
  the smallest prime greater than or equal to \<open>2 * N\<close>.\<close>

theorem table_size_smallest_prime:
  "1 \<le> N \<Longrightarrow>
     table_size_of N = next_prime (2 * N)
     \<and> prime_number (table_size_of N) \<and> 2 * N \<le> table_size_of N
     \<and> (\<forall>q. 2 * N \<le> q \<and> q < table_size_of N \<longrightarrow> \<not> prime_number q)"
  using next_prime_least [of "2 * N"]
  by (simp add: table_size_of_def is_prime_iff mult.commute)

theorem table_size_smallest_prime_witness:
  "(1 :: nat) \<le> 3 \<and> table_size_of 3 = 7 \<and> prime_number 7 \<and> \<not> prime_number 6"
proof -
  have eq: "table_size_of 3 = 7"
    using next_prime_6 by (simp add: table_size_of_def)
  have "(1 :: nat) \<le> 3" by simp
  then have "prime_number (table_size_of 3)"
    and "\<forall>q. 2 * 3 \<le> q \<and> q < table_size_of 3 \<longrightarrow> \<not> prime_number q"
    using table_size_smallest_prime [of 3] by blast+
  then have "prime_number 7" and "\<not> prime_number 6"
    unfolding eq by simp_all
  with eq show ?thesis by simp
qed

section \<open>Failing allocations\<close>

text \<open>\<open>main\<close> ends with \<open>save_database\<close> and \<open>return 0\<close> once the table is allocated and
  the enumeration has returned.\<close>

lemma main_after_generation:
  "tt_init env = Inr t \<Longrightarrow>
   generate_positions env empty_position 0 \<lparr> tt = t, critical_list = [], critical_capacity = 0 \<rparr>
     = Inr s \<Longrightarrow>
   main env = main_finish env s"
  by (simp add: main_def)

text \<open>The first two allocations: a failure is fatal, with exit code 1.\<close>

lemma tt_allocation_failure_fatal:
  "\<not> calloc_tt_ok env \<Longrightarrow>
     main env = Some \<lparr> stderr_lines = [''Failed to allocate transposition table!''],
                      exit_code = 1, written = None \<rparr>"
  by (simp add: main_def tt_init_def)

lemma list_allocation_failure_fatal:
  "critical_capacity s \<le> length (critical_list s) \<Longrightarrow>
   \<not> realloc_list_ok env (if critical_capacity s \<noteq> 0 then critical_capacity s * 2 else 1000000) \<Longrightarrow>
     add_critical env s h col = Inl (Fatal ''Failed to allocate critical list!'' 1)"
  by (simp add: add_critical_def Let_def)

lemma generation_failure_fatal:
  "tt_init env = Inr t \<Longrightarrow>
   generate_positions env empty_position 0 \<lparr> tt = t, critical_list = [], critical_capacity = 0 \<rparr>
     = Inl (Fatal msg code) \<Longrightarrow>
   main env = Some \<lparr> stderr_lines = [msg], exit_code = code, written = None \<rparr>"
  by (simp add: main_def)

text \<open>C3 fails for the third allocation: when at least one entry was collected and the
  allocation of the hash-table arrays fails, \<open>save_database\<close> writes its line to standard
  error and returns, no file is written, and the program ends with exit code 0.\<close>

theorem table_allocation_failure_exit_zero:
  "critical_list s \<noteq> [] \<Longrightarrow>
   \<not> calloc_table_ok env (table_size_of (length (critical_list s))) \<Longrightarrow>
     main_finish env s = Some \<lparr> stderr_lines = [''Failed to allocate hash table!''],
                                exit_code = 0, written = None \<rparr>"
  by (simp add: main_finish_def save_database_def Let_def)

theorem table_allocation_failure_exit_zero_witness:
  "critical_list one_entry \<noteq> []
   \<and> \<not> calloc_table_ok no_table_memory (table_size_of (length (critical_list one_entry)))
   \<and> main_finish no_table_memory one_entry
       = Some \<lparr> stderr_lines = [''Failed to allocate hash table!''],
                exit_code = 0, written = None \<rparr>"
proof -
  have a: "critical_list one_entry \<noteq> []"
    by (simp add: one_entry_def)
  have b: "\<not> calloc_table_ok no_table_memory (table_size_of (length (critical_list one_entry)))"
    by (simp add: no_table_memory_def)
  from table_allocation_failure_exit_zero [OF a b] a b show ?thesis by simp
qed

section \<open>Counting bits\<close>

text \<open>Counting the bits of a word by clearing its lowest bit.\<close>

lemma clear_lowest_bit:
  fixes w :: u64
  assumes "w \<noteq> 0"
  shows "\<exists>k. bit w k \<and> (\<forall>j. bit (w AND (w - 1)) j \<longleftrightarrow> bit w j \<and> j \<noteq> k)"
proof -
  from assms obtain k0 where "bit w k0"
    unfolding u64_eq_0_iff by blast
  define k where "k = (LEAST k. bit w k)"
  have wk: "bit w k"
    unfolding k_def using \<open>bit w k0\<close> by (rule LeastI)
  have low: "\<not> bit w j" if "j < k" for j
    using that not_less_Least unfolding k_def by blast
  have k64: "k < 64" using wk by (rule bit_u64_less)
  define rest where "rest = w AND NOT (2 ^ k)"
  have bit_rest: "bit rest j \<longleftrightarrow> bit w j \<and> j \<noteq> k" for j
    unfolding rest_def bit_and_iff bit_not_iff bit_exp_u64
    using bit_u64_less [of w j] by auto
  have "rest AND 2 ^ k = 0"
    by (rule bit_eqI) (simp add: bit_and_iff bit_rest bit_exp_u64)
  then have "rest + 2 ^ k = rest OR 2 ^ k"
    by (rule disjunctive_add_eq_or)
  also have "\<dots> = w"
    by (rule bit_eqI) (use wk k64 in \<open>auto simp add: bit_or_iff bit_rest bit_exp_u64\<close>)
  finally have w: "w = rest + 2 ^ k" by simp
  have e: "(2 ^ k :: u64) - 1 = semiring_bit_operations_class.mask k"
    by (simp add: mask_eq_exp_minus_1)
  have bit_low: "bit (semiring_bit_operations_class.mask k :: u64) j \<longleftrightarrow> j < k" for j
    using k64 by (auto simp add: bit_mask_iff)
  have "rest AND semiring_bit_operations_class.mask k = 0"
    by (rule bit_eqI) (use low in \<open>auto simp add: bit_and_iff bit_rest bit_low\<close>)
  then have "rest + semiring_bit_operations_class.mask k = rest OR semiring_bit_operations_class.mask k"
    by (rule disjunctive_add_eq_or)
  moreover have "w - 1 = rest + (2 ^ k - 1)"
    unfolding w by simp
  ultimately have w1: "w - 1 = rest OR semiring_bit_operations_class.mask k"
    unfolding e by simp
  have c: "bit (w AND (w - 1)) j \<longleftrightarrow> bit w j \<and> j \<noteq> k" for j
    unfolding w1 bit_and_iff bit_or_iff bit_rest bit_low using low [of j] by auto
  with wk show ?thesis by blast
qed

lemma popcount_rec: "popcount w = (if w = 0 then 0 else Suc (popcount (w AND (w - 1))))"
proof (cases "w = 0")
  case True
  then show ?thesis by (simp add: popcount_card)
next
  case False
  then obtain k where k: "bit w k"
    and c: "\<And>j. bit (w AND (w - 1)) j \<longleftrightarrow> bit w j \<and> j \<noteq> k"
    using clear_lowest_bit [of w] by blast
  have "{j. bit (w AND (w - 1)) j} = {j. bit w j} - {k}"
    using c by auto
  moreover have "finite {j. bit w j}" by simp
  ultimately have "card {j. bit (w AND (w - 1)) j} = card {j. bit w j} - 1"
    using k by simp
  moreover have "0 < card {j. bit w j}"
    using k by (auto simp add: card_gt_0_iff)
  ultimately have "Suc (card {j. bit (w AND (w - 1)) j}) = card {j. bit w j}"
    by linarith
  then have "Suc (popcount (w AND (w - 1))) = popcount w"
    by (simp only: popcount_card)
  with False show ?thesis
    by simp
qed

section \<open>The solver at lost positions\<close>

lemma negamax_lost:
  "\<not> can_win_next p \<Longrightarrow> non_losing_moves p = 0 \<Longrightarrow>
     negamax t p alpha beta = (t, (- (int WIDTH * int HEIGHT - ply p)) sdiv 2)"
  by (subst negamax.simps) simp

lemma solve_lost:
  assumes "\<not> can_win_next p" and "non_losing_moves p = 0"
  shows "solve t p = (t, (- (int WIDTH * int HEIGHT - ply p)) sdiv 2)"
proof -
  define mn where "mn = (- (int WIDTH * int HEIGHT - ply p)) sdiv 2"
  define mx where "mx = (int WIDTH * int HEIGHT + 1 - ply p) sdiv 2"
  have n: "negamax t p a b = (t, mn)" for a b
    unfolding mn_def using assms by (rule negamax_lost)
  have stop: "solve_loop t p mn mn = (t, mn)"
    by (subst solve_loop.simps) simp
  have "solve_loop t p mn mx = (t, mn)"
  proof (cases "mn < mx")
    case False
    then show ?thesis by (subst solve_loop.simps) simp
  next
    case True
    from solve_med_bounds [OF True] show ?thesis
      by (subst solve_loop.simps) (simp add: Let_def n stop True)
  qed
  then show ?thesis
    using assms(1) by (simp add: solve_def mn_def mx_def)
qed

lemmas win_eval = compute_winning_positions_def board_mask_val bottom_mask_val HEIGHT_def

section \<open>The classifier at a position of ply 28\<close>

text \<open>The three columns of \<open>critical_28\<close> that \<open>non_losing_moves\<close> keeps are 0, 4 and 6. The
  positions after columns 0 and 6 are won by the opponent, whose first move leaves no safe
  reply; after column 4 the opponent has no safe move.\<close>

lemma cwn_c0: "\<not> can_win_next \<lparr> current = 0x119060654015, mask = 0x3df8706fc1bf, ply = 29 \<rparr>"
  by (simp add: can_win_next_def win_eval)

lemma nl_c0: "non_losing_moves \<lparr> current = 0x119060654015, mask = 0x3df8706fc1bf, ply = 29 \<rparr> = 0x400080800200"
  by (simp add: non_losing_moves_def opponent_winning_positions_def win_eval)

lemma score_c0_3: "move_score \<lparr> current = 0x119060654015, mask = 0x3df8706fc1bf, ply = 29 \<rparr> 0x800000 = 3"
proof -
  have "compute_winning_positions (0x119060654015 OR 0x800000) 0x3df8706fc1bf = 0x1000600"
    by (simp add: win_eval)
  moreover have "popcount 0x1000600 = 3"
    by (simp add: popcount_rec)
  ultimately show ?thesis by (simp add: move_score_def)
qed

lemma score_c0_4: "move_score \<lparr> current = 0x119060654015, mask = 0x3df8706fc1bf, ply = 29 \<rparr> 0x80000000 = 3"
proof -
  have "compute_winning_positions (0x119060654015 OR 0x80000000) 0x3df8706fc1bf = 0x101000400"
    by (simp add: win_eval)
  moreover have "popcount 0x101000400 = 3"
    by (simp add: popcount_rec)
  ultimately show ?thesis by (simp add: move_score_def)
qed

lemma score_c0_1: "move_score \<lparr> current = 0x119060654015, mask = 0x3df8706fc1bf, ply = 29 \<rparr> 0x200 = 3"
proof -
  have "compute_winning_positions (0x119060654015 OR 0x200) 0x3df8706fc1bf = 0x1800400"
    by (simp add: win_eval)
  moreover have "popcount 0x1800400 = 3"
    by (simp add: popcount_rec)
  ultimately show ?thesis by (simp add: move_score_def)
qed

lemma score_c0_6: "move_score \<lparr> current = 0x119060654015, mask = 0x3df8706fc1bf, ply = 29 \<rparr> 0x400000000000 = 2"
proof -
  have "compute_winning_positions (0x119060654015 OR 0x400000000000) 0x3df8706fc1bf = 0x1000400"
    by (simp add: win_eval)
  moreover have "popcount 0x1000400 = 2"
    by (simp add: popcount_rec)
  ultimately show ?thesis by (simp add: move_score_def)
qed

lemma collect_c0: "collect_moves \<lparr> current = 0x119060654015, mask = 0x3df8706fc1bf, ply = 29 \<rparr> 0x400080800200 = [\<lparr> move = 0x800000, score = 3 \<rparr>, \<lparr> move = 0x80000000, score = 3 \<rparr>, \<lparr> move = 0x200, score = 3 \<rparr>, \<lparr> move = 0x400000000000, score = 2 \<rparr>]"
  by (simp add: collect_moves_def column_order_def column_mask_col_eq score_c0_3 score_c0_4 score_c0_1 score_c0_6)

lemma sorted_c0: "sort_moves [\<lparr> move = 0x800000, score = 3 \<rparr>, \<lparr> move = 0x80000000, score = 3 \<rparr>, \<lparr> move = 0x200, score = 3 \<rparr>, \<lparr> move = 0x400000000000, score = 2 \<rparr>] = [\<lparr> move = 0x800000, score = 3 \<rparr>, \<lparr> move = 0x80000000, score = 3 \<rparr>, \<lparr> move = 0x200, score = 3 \<rparr>, \<lparr> move = 0x400000000000, score = 2 \<rparr>]"
  by (simp add: sort_moves_def upt_rec)

lemma cwn_g0: "\<not> can_win_next \<lparr> current = 0x2c68100a81aa, mask = 0x3df870efc1bf, ply = 30 \<rparr>"
  by (simp add: can_win_next_def win_eval)

lemma nl_g0: "non_losing_moves \<lparr> current = 0x2c68100a81aa, mask = 0x3df870efc1bf, ply = 30 \<rparr> = 0x0"
  by (simp add: non_losing_moves_def opponent_winning_positions_def win_eval)

lemma cwn_c6: "\<not> can_win_next \<lparr> current = 0x119060654015, mask = 0x7df8706fc19f, ply = 29 \<rparr>"
  by (simp add: can_win_next_def win_eval)

lemma nl_c6: "non_losing_moves \<lparr> current = 0x119060654015, mask = 0x7df8706fc19f, ply = 29 \<rparr> = 0x800080800220"
  by (simp add: non_losing_moves_def opponent_winning_positions_def win_eval)

lemma score_c6_3: "move_score \<lparr> current = 0x119060654015, mask = 0x7df8706fc19f, ply = 29 \<rparr> 0x800000 = 3"
proof -
  have "compute_winning_positions (0x119060654015 OR 0x800000) 0x7df8706fc19f = 0x1000600"
    by (simp add: win_eval)
  moreover have "popcount 0x1000600 = 3"
    by (simp add: popcount_rec)
  ultimately show ?thesis by (simp add: move_score_def)
qed

lemma score_c6_4: "move_score \<lparr> current = 0x119060654015, mask = 0x7df8706fc19f, ply = 29 \<rparr> 0x80000000 = 3"
proof -
  have "compute_winning_positions (0x119060654015 OR 0x80000000) 0x7df8706fc19f = 0x101000400"
    by (simp add: win_eval)
  moreover have "popcount 0x101000400 = 3"
    by (simp add: popcount_rec)
  ultimately show ?thesis by (simp add: move_score_def)
qed

lemma score_c6_1: "move_score \<lparr> current = 0x119060654015, mask = 0x7df8706fc19f, ply = 29 \<rparr> 0x200 = 3"
proof -
  have "compute_winning_positions (0x119060654015 OR 0x200) 0x7df8706fc19f = 0x1800400"
    by (simp add: win_eval)
  moreover have "popcount 0x1800400 = 3"
    by (simp add: popcount_rec)
  ultimately show ?thesis by (simp add: move_score_def)
qed

lemma score_c6_0: "move_score \<lparr> current = 0x119060654015, mask = 0x7df8706fc19f, ply = 29 \<rparr> 0x20 = 2"
proof -
  have "compute_winning_positions (0x119060654015 OR 0x20) 0x7df8706fc19f = 0x1000400"
    by (simp add: win_eval)
  moreover have "popcount 0x1000400 = 2"
    by (simp add: popcount_rec)
  ultimately show ?thesis by (simp add: move_score_def)
qed

lemma score_c6_6: "move_score \<lparr> current = 0x119060654015, mask = 0x7df8706fc19f, ply = 29 \<rparr> 0x800000000000 = 2"
proof -
  have "compute_winning_positions (0x119060654015 OR 0x800000000000) 0x7df8706fc19f = 0x1000400"
    by (simp add: win_eval)
  moreover have "popcount 0x1000400 = 2"
    by (simp add: popcount_rec)
  ultimately show ?thesis by (simp add: move_score_def)
qed

lemma collect_c6: "collect_moves \<lparr> current = 0x119060654015, mask = 0x7df8706fc19f, ply = 29 \<rparr> 0x800080800220 = [\<lparr> move = 0x800000, score = 3 \<rparr>, \<lparr> move = 0x80000000, score = 3 \<rparr>, \<lparr> move = 0x200, score = 3 \<rparr>, \<lparr> move = 0x20, score = 2 \<rparr>, \<lparr> move = 0x800000000000, score = 2 \<rparr>]"
  by (simp add: collect_moves_def column_order_def column_mask_col_eq score_c6_3 score_c6_4 score_c6_1 score_c6_0 score_c6_6)

lemma sorted_c6: "sort_moves [\<lparr> move = 0x800000, score = 3 \<rparr>, \<lparr> move = 0x80000000, score = 3 \<rparr>, \<lparr> move = 0x200, score = 3 \<rparr>, \<lparr> move = 0x20, score = 2 \<rparr>, \<lparr> move = 0x800000000000, score = 2 \<rparr>] = [\<lparr> move = 0x800000, score = 3 \<rparr>, \<lparr> move = 0x80000000, score = 3 \<rparr>, \<lparr> move = 0x200, score = 3 \<rparr>, \<lparr> move = 0x20, score = 2 \<rparr>, \<lparr> move = 0x800000000000, score = 2 \<rparr>]"
  by (simp add: sort_moves_def upt_rec)

lemma cwn_g6: "\<not> can_win_next \<lparr> current = 0x6c68100a818a, mask = 0x7df870efc19f, ply = 30 \<rparr>"
  by (simp add: can_win_next_def win_eval)

lemma nl_g6: "non_losing_moves \<lparr> current = 0x6c68100a818a, mask = 0x7df870efc19f, ply = 30 \<rparr> = 0x0"
  by (simp add: non_losing_moves_def opponent_winning_positions_def win_eval)

lemma cwn_c4: "\<not> can_win_next \<lparr> current = 0x119060654015, mask = 0x3df8f06fc19f, ply = 29 \<rparr>"
  by (simp add: can_win_next_def win_eval)

lemma nl_c4: "non_losing_moves \<lparr> current = 0x119060654015, mask = 0x3df8f06fc19f, ply = 29 \<rparr> = 0x0"
  by (simp add: non_losing_moves_def opponent_winning_positions_def win_eval)

lemma cwn_p28: "\<not> can_win_next \<lparr> current = 0x2c68100a818a, mask = 0x3df8706fc19f, ply = 28 \<rparr>"
  by (simp add: can_win_next_def win_eval)

lemma nl_p28: "non_losing_moves \<lparr> current = 0x2c68100a818a, mask = 0x3df8706fc19f, ply = 28 \<rparr> = 0x400080000020"
  by (simp add: non_losing_moves_def opponent_winning_positions_def win_eval)

lemmas score_eval = WIDTH_def HEIGHT_def signed_divide_int_def position_key_def Let_def

lemma negamax_c0_first:
  "tt_probe t 87449037767124 = None \<Longrightarrow>
     negamax t \<lparr> current = 0x119060654015, mask = 0x3df8706fc1bf, ply = 29 \<rparr> (- 3) (- 2)
       = (tt_store t 87449037767124 6, 6)"
  by (subst negamax.simps)
     (simp add: cwn_c0 nl_c0 collect_c0 sorted_c0 negamax_lost [OF cwn_g0 nl_g0] score_eval)

lemma negamax_c0_second:
  "negamax t \<lparr> current = 0x119060654015, mask = 0x3df8706fc1bf, ply = 29 \<rparr> 6 7 = (t, 6)"
  by (subst negamax.simps) (simp add: cwn_c0 nl_c0 score_eval)

lemma solve_c0:
  "tt_probe t 87449037767124 = None \<Longrightarrow>
     solve t \<lparr> current = 0x119060654015, mask = 0x3df8706fc1bf, ply = 29 \<rparr>
       = (tt_store t 87449037767124 6, 6)"
  unfolding solve_def
  apply (simp add: cwn_c0 score_eval)
  apply (subst solve_loop.simps)
  apply (simp add: negamax_c0_first score_eval)
  apply (subst solve_loop.simps)
  apply (simp add: negamax_c0_second score_eval)
  apply (subst solve_loop.simps)
  apply simp
  done

lemma negamax_c6_first:
  "tt_probe t 157817781944756 = None \<Longrightarrow>
     negamax t \<lparr> current = 0x119060654015, mask = 0x7df8706fc19f, ply = 29 \<rparr> (- 3) (- 2)
       = (tt_store t 157817781944756 6, 6)"
  by (subst negamax.simps)
     (simp add: cwn_c6 nl_c6 collect_c6 sorted_c6 negamax_lost [OF cwn_g6 nl_g6] score_eval)

lemma negamax_c6_second:
  "negamax t \<lparr> current = 0x119060654015, mask = 0x7df8706fc19f, ply = 29 \<rparr> 6 7 = (t, 6)"
  by (subst negamax.simps) (simp add: cwn_c6 nl_c6 score_eval)

lemma solve_c6:
  "tt_probe t 157817781944756 = None \<Longrightarrow>
     solve t \<lparr> current = 0x119060654015, mask = 0x7df8706fc19f, ply = 29 \<rparr>
       = (tt_store t 157817781944756 6, 6)"
  unfolding solve_def
  apply (simp add: cwn_c6 score_eval)
  apply (subst solve_loop.simps)
  apply (simp add: negamax_c6_first score_eval)
  apply (subst solve_loop.simps)
  apply (simp add: negamax_c6_second score_eval)
  apply (subst solve_loop.simps)
  apply simp
  done

lemma tt_probe_zero: "tt_probe tt_zero k = None"
  by (simp add: tt_probe_def tt_zero_def)

lemma tt_probe_c6: "tt_probe (tt_store tt_zero 87449037767124 6) 157817781944756 = None"
  by (simp add: tt_probe_def tt_store_def tt_zero_def TT_MASK_def TT_SIZE_def)

lemma obvious_p28: "\<not> is_obvious_move \<lparr> current = 0x2c68100a818a, mask = 0x3df8706fc19f, ply = 28 \<rparr> 4"
  by (simp add: is_obvious_move_def opponent_winning_positions_def win_eval move_bit_def
      bottom_mask_col_eq column_mask_col_eq)

lemma analyze_p28:
  "analyze_position tt_zero \<lparr> current = 0x2c68100a818a, mask = 0x3df8706fc19f, ply = 28 \<rparr>
     = (tt_store (tt_store tt_zero 87449037767124 6) 157817781944756 6, 4)"
  unfolding analyze_position_def upt_WIDTH
  by (simp add: cwn_p28 nl_p28 MIN_PLY_def MAX_PLY_def play_eval obvious_p28
      solve_c0 [OF tt_probe_zero] solve_c6 [OF tt_probe_c6] solve_lost [OF cwn_c4 nl_c4] score_eval)

lemma critical_28_eq: "critical_28 = \<lparr> current = 0x2c68100a818a, mask = 0x3df8706fc19f, ply = 28 \<rparr>"
  unfolding critical_28_def by (simp add: play_eval)

lemma critical_28_reachable: "reachable critical_28"
  unfolding critical_28_def
  by (intro reachable_play reachable_empty) (simp_all add: play_eval WIDTH_def)

lemma critical_28_invariants: "invariants critical_28"
  using critical_28_reachable reachable_invariants_aux by blast

section \<open>The column the classifier returns\<close>

lemma non_losing_possible:
  "bit (non_losing_moves p) j \<Longrightarrow> bit ((mask p + bottom_mask) AND board_mask) j"
  by (auto simp add: non_losing_moves_def Let_def bit_and_iff split: if_splits)

lemma column_of_landing:
  assumes inv: "invariants p" and c: "c < 7"
    and j: "bit ((mask p + bottom_mask) AND board_mask) j" and col: "bit (column_mask_col c) j"
  shows "can_play p c \<and> move_bit p c = 2 ^ j"
proof -
  from col have "7 * c \<le> j" and "j < 7 * Suc c"
    by (simp_all add: bit_column_mask_col [OF c])
  then have "j div 7 = c"
    by (rule div_nat_eqI)
  with possible_landing [OF inv j] show ?thesis by simp
qed

text \<open>In a position that satisfies the invariants, the bits of \<open>non_losing_moves\<close> in a
  column are the drop cell of that column.\<close>

lemma non_losing_column:
  assumes inv: "invariants p" and c: "c < 7"
    and nz: "non_losing_moves p AND column_mask_col c \<noteq> 0"
  shows "can_play p c" and "move_bit p c \<noteq> 0"
    and "non_losing_moves p AND column_mask_col c = move_bit p c"
    and "non_losing_moves p AND move_bit p c = move_bit p c"
proof -
  from nz obtain j where "bit (non_losing_moves p AND column_mask_col c) j"
    unfolding u64_eq_0_iff by blast
  then have j: "bit (non_losing_moves p) j" "bit (column_mask_col c) j"
    by (simp_all add: bit_and_iff)
  have j64: "j < 64" using j(1) by (rule bit_u64_less)
  have land: "can_play p c \<and> move_bit p c = 2 ^ j"
    using inv c non_losing_possible [OF j(1)] j(2) by (rule column_of_landing)
  then show "can_play p c" by simp
  have mj: "bit (move_bit p c) k \<longleftrightarrow> k = j" for k
    using land j64 by (auto simp add: bit_exp_u64)
  then have "bit (move_bit p c) j" by simp
  then show "move_bit p c \<noteq> 0"
    unfolding u64_eq_0_iff by blast
  have only: "k = j" if "bit (non_losing_moves p) k" "bit (column_mask_col c) k" for k
  proof -
    have "can_play p c \<and> move_bit p c = 2 ^ k"
      using inv c non_losing_possible [OF that(1)] that(2) by (rule column_of_landing)
    moreover have "k < 64" using that(1) by (rule bit_u64_less)
    ultimately have "bit (move_bit p c) k" by (simp add: bit_exp_u64)
    then show ?thesis by (simp add: mj)
  qed
  show "non_losing_moves p AND column_mask_col c = move_bit p c"
  proof (rule bit_eqI)
    fix k
    have "bit (non_losing_moves p) k \<and> bit (column_mask_col c) k \<longleftrightarrow> k = j"
      using only [of k] j by blast
    then show "bit (non_losing_moves p AND column_mask_col c) k \<longleftrightarrow> bit (move_bit p c) k"
      by (simp add: bit_and_iff mj)
  qed
  show "non_losing_moves p AND move_bit p c = move_bit p c"
  proof (rule bit_eqI)
    fix k
    have "bit (non_losing_moves p) k \<and> k = j \<longleftrightarrow> k = j"
      using j(1) by blast
    then show "bit (non_losing_moves p AND move_bit p c) k \<longleftrightarrow> bit (move_bit p c) k"
      by (simp add: bit_and_iff mj)
  qed
qed

text \<open>Where a recorded entry comes from.\<close>

lemma recorded_source:
  assumes "recorded p e"
  shows "\<exists>q c. reaches p q \<and> c < WIDTH \<and> MIN_PLY \<le> ply q \<and> ply q \<le> MAX_PLY
      \<and> \<not> can_win_next q \<and> can_play q c \<and> \<not> is_obvious_move q c
      \<and> e = \<lparr> hash = position_key q, winning_col = of_nat c \<rparr>"
proof -
  from assms obtain q t t' c where q: "reaches p q" "analyze_position t q = (t', int c)"
    "e = \<lparr> hash = position_key q, winning_col = word_of_int (int c) \<rparr>"
    unfolding recorded_def by blast
  from analyze_position_result [OF q(2)]
  have "c < WIDTH \<and> MIN_PLY \<le> ply q \<and> ply q \<le> MAX_PLY \<and> \<not> can_win_next q
      \<and> can_play q c \<and> \<not> is_obvious_move q c"
    by auto
  with q(1,3) show ?thesis by auto
qed

lemma recorded_column: "recorded p e \<Longrightarrow> unat (winning_col e) \<le> 6"
proof -
  assume "recorded p e"
  then obtain c where "c < WIDTH" "winning_col e = of_nat c"
    using recorded_source by fastforce
  then show ?thesis
    by (simp add: WIDTH_def unat_of_nat)
qed

lemma slots_from_mono: "slots_from E n tbl \<Longrightarrow> E \<subseteq> E' \<Longrightarrow> slots_from E' n tbl"
  unfolding slots_from_def by blast

lemma insert_entry_slots:
  assumes "slots_from E n tbl" and "insert_entry tbl e = Some tbl'"
  shows "slots_from (insert e E) n tbl'"
proof -
  from assms(2) obtain j where tbl': "tbl' = \<lparr> keys = (keys tbl)[j := partial_key_of (hash e)],
      vals = (vals tbl)[j := winning_col e] \<rparr>"
    by (auto simp add: insert_entry_def Let_def split: option.splits)
  have "(keys tbl' ! i = 0 \<and> vals tbl' ! i = 0)
      \<or> (\<exists>e'\<in>insert e E. keys tbl' ! i = partial_key_of (hash e') \<and> vals tbl' ! i = winning_col e')"
    if "i < n" for i
  proof (cases "i = j")
    case True
    with that assms(1) show ?thesis
      by (simp add: tbl' slots_from_def)
  next
    case False
    with that assms(1) show ?thesis
      unfolding slots_from_def tbl' by auto
  qed
  with assms(1) show ?thesis
    by (simp add: slots_from_def tbl')
qed

lemma fold_insert_slots:
  "fold (\<lambda>e r. case r of None \<Rightarrow> None | Some tbl \<Rightarrow> insert_entry tbl e) entries (Some tbl0) = Some tbl
     \<Longrightarrow> slots_from E n tbl0 \<Longrightarrow> slots_from (E \<union> set entries) n tbl"
proof (induction entries arbitrary: tbl0 E)
  case Nil
  then show ?case by simp
next
  case (Cons e entries)
  show ?case
  proof (cases "insert_entry tbl0 e")
    case None
    have "fold (\<lambda>e r. case r of None \<Rightarrow> None | Some tbl \<Rightarrow> insert_entry tbl e) entries None = None"
      by (induction entries) simp_all
    with Cons.prems(1) None show ?thesis by simp
  next
    case (Some tbl1)
    with Cons.prems(2) have "slots_from (insert e E) n tbl1"
      by (intro insert_entry_slots [of E n tbl0 e])
    moreover from Cons.prems(1) Some
    have "fold (\<lambda>e r. case r of None \<Rightarrow> None | Some tbl \<Rightarrow> insert_entry tbl e) entries (Some tbl1) = Some tbl"
      by simp
    ultimately have "slots_from (insert e E \<union> set entries) n tbl"
      by (intro Cons.IH [of tbl1 "insert e E"])
    then show ?thesis by simp
  qed
qed

lemma build_table_slots:
  assumes "build_table n entries = Some tbl"
  shows "slots_from (set entries) n tbl"
proof -
  have "slots_from {} n \<lparr> keys = replicate n 0, vals = replicate n 0 \<rparr>"
    by (simp add: slots_from_def)
  with assms have "slots_from ({} \<union> set entries) n tbl"
    unfolding build_table_def by (intro fold_insert_slots)
  then show ?thesis by simp
qed

lemma save_database_slots:
  assumes "save_database env entries = Some (errs, Some f)"
  shows "slots_from (set entries) (table_size_of (length entries))
           \<lparr> keys = file_keys f, vals = file_vals f \<rparr>"
proof -
  from assms obtain tbl where "build_table (table_size_of (length entries)) entries = Some tbl"
    and "file_keys f = keys tbl" and "file_vals f = vals tbl"
    by (auto simp add: save_database_def Let_def split: if_splits option.splits)
  with build_table_slots [of "table_size_of (length entries)" entries tbl] show ?thesis
    by (simp add: slots_from_def)
qed

lemma generated_columns:
  assumes "generate_positions env q depth s = Inr s'"
    and "\<forall>e\<in>set (critical_list s). unat (winning_col e) \<le> 6"
  shows "\<forall>e\<in>set (critical_list s'). unat (winning_col e) \<le> 6"
proof -
  from generate_positions_extends [OF assms(1)] obtain new
    where "critical_list s' = critical_list s @ new" "list_all (recorded q) new"
    unfolding extends_by_def by blast
  with assms(2) recorded_column show ?thesis
    by (auto simp add: list_all_iff)
qed

lemma saved_values:
  assumes "save_database env entries = Some (errs, Some f)"
    and "\<forall>e\<in>set entries. unat (winning_col e) \<le> 6"
  shows "\<forall>v\<in>set (file_vals f). unat v \<le> 6"
proof
  fix v
  assume "v \<in> set (file_vals f)"
  then obtain i where i: "i < length (file_vals f)" "v = file_vals f ! i"
    by (auto simp add: in_set_conv_nth)
  from save_database_slots [OF assms(1)] i
  have "v = 0 \<or> (\<exists>e\<in>set entries. v = winning_col e)"
    unfolding slots_from_def by auto
  with assms(2) show "unat v \<le> 6" by auto
qed

text \<open>The values of the file the whole program writes.\<close>

lemma database_values:
  assumes "main env = Some out" and "written out = Some f"
  shows "\<forall>v\<in>set (file_vals f). unat v \<le> 6"
proof -
  from assms obtain t s errs where g: "generate_positions env empty_position 0
      \<lparr> tt = t, critical_list = [], critical_capacity = 0 \<rparr> = Inr s"
    and sv: "save_database env (critical_list s) = Some (errs, Some f)"
    by (auto simp add: main_def main_finish_def split: sum.splits fatal.splits option.splits prod.splits)
  from g have "\<forall>e\<in>set (critical_list s). unat (winning_col e) \<le> 6"
    by (rule generated_columns) simp
  with sv show ?thesis by (rule saved_values)
qed

lemma key_critical_28: "position_key critical_28 = 0x6A60807A4329"
  unfolding critical_28_eq by (simp add: position_key_def)

lemma generate_critical_28:
  "generate_positions all_ok critical_28 28 \<lparr> tt = tt_zero, critical_list = [], critical_capacity = 0 \<rparr>
     = Inr \<lparr> tt = tt_store (tt_store tt_zero 87449037767124 6) 157817781944756 6,
             critical_list = [\<lparr> hash = 0x6A60807A4329, winning_col = 4 \<rparr>],
             critical_capacity = 1000000 \<rparr>"
proof -
  have "analyze_step all_ok critical_28 \<lparr> tt = tt_zero, critical_list = [], critical_capacity = 0 \<rparr>
     = Inr \<lparr> tt = tt_store (tt_store tt_zero 87449037767124 6) 157817781944756 6,
             critical_list = [\<lparr> hash = 0x6A60807A4329, winning_col = 4 \<rparr>],
             critical_capacity = 1000000 \<rparr>"
    unfolding analyze_step_def key_critical_28
    unfolding critical_28_eq
    by (simp add: analyze_p28 MIN_PLY_def MAX_PLY_def add_critical_def all_ok_def)
  moreover have "ply critical_28 = 28"
    unfolding critical_28_eq by simp
  ultimately show ?thesis
    by (simp add: generate_positions_unfold MAX_PLY_def)
qed

lemma next_prime_2: "next_prime 2 = 2"
  by (subst next_prime.simps) (simp add: is_prime_def)

lemma save_critical_28:
  "save_database all_ok [\<lparr> hash = 0x6A60807A4329, winning_col = 4 \<rparr>]
     = Some ([], Some \<lparr> header = [7, 6, 15, 28, 4, 1, 0, 0], tsize = 2,
                         file_keys = [0, 0x6A60807A], file_vals = [0, 4] \<rparr>)"
proof -
  have p: "probe_slot [0, 0] (Suc 0) = Some (Suc 0)"
    by (subst probe_slot.simps) simp
  have r: "replicate 2 x = [x, x]" for x :: 'a
    by (simp add: numeral_2_eq_2)
  have "(116962704900905 :: nat) mod 2 = Suc 0"
    by simp
  then have i: "(116962704900905 :: nat) mod Suc (Suc 0) = Suc 0"
    by (simp only: numeral_2_eq_2)
  have "build_table 2 [\<lparr> hash = 0x6A60807A4329, winning_col = 4 \<rparr>]
      = Some \<lparr> keys = [0, 0x6A60807A], vals = [0, 4] \<rparr>"
    by (simp add: build_table_def insert_entry_def partial_key_of_def p r i)
  then show ?thesis
    by (simp add: save_database_def table_size_of_def next_prime_2 all_ok_def)
qed

text \<open>C10: whatever the table and the position, \<open>analyze_position\<close> returns \<open>- 1\<close> or a
  column \<open>r\<close> with \<open>0 \<le> r \<le> 6\<close> that is playable and holds a bit of \<open>non_losing_moves\<close>; in
  a position that satisfies the invariants that bit is the drop cell of the column, so the
  drop cell is a member of \<open>non_losing_moves\<close>. Consequently, when the enumerator starts
  with an empty buffer and the serializer writes the file from the buffer it returns, every
  value byte of the file is between 0 and 6.\<close>

theorem analyze_position_column:
  "(analyze_position t p = (t', r) \<longrightarrow>
      r = - 1 \<or> (0 \<le> r \<and> r \<le> 6 \<and> can_play p (nat r)
         \<and> non_losing_moves p AND column_mask_col (nat r) \<noteq> 0
         \<and> (invariants p \<longrightarrow> move_bit p (nat r) \<noteq> 0
               \<and> non_losing_moves p AND move_bit p (nat r) = move_bit p (nat r))))
   \<and> (generate_positions env q depth \<lparr> tt = t0, critical_list = [], critical_capacity = cap \<rparr>
          = Inr s'
        \<and> save_database env (critical_list s') = Some (errs, Some f)
      \<longrightarrow> (\<forall>v\<in>set (file_vals f). unat v \<le> 6))"
proof (intro conjI impI)
  assume a: "analyze_position t p = (t', r)"
  show "r = - 1 \<or> (0 \<le> r \<and> r \<le> 6 \<and> can_play p (nat r)
         \<and> non_losing_moves p AND column_mask_col (nat r) \<noteq> 0
         \<and> (invariants p \<longrightarrow> move_bit p (nat r) \<noteq> 0
               \<and> non_losing_moves p AND move_bit p (nat r) = move_bit p (nat r)))"
  proof (cases "r = - 1")
    case True
    then show ?thesis by simp
  next
    case False
    with analyze_position_result [OF a] obtain c where c: "r = int c" "c < WIDTH" "can_play p c"
      "non_losing_moves p AND column_mask_col c \<noteq> 0"
      by blast
    from c(2) have c7: "c < 7" by (simp add: WIDTH_def)
    have "move_bit p c \<noteq> 0 \<and> non_losing_moves p AND move_bit p c = move_bit p c"
      if "invariants p"
      using non_losing_column(2,4) [OF that c7 c(4)] by simp
    with c c7 show ?thesis by simp
  qed
next
  assume "generate_positions env q depth \<lparr> tt = t0, critical_list = [], critical_capacity = cap \<rparr>
          = Inr s'
        \<and> save_database env (critical_list s') = Some (errs, Some f)"
  then have g: "generate_positions env q depth \<lparr> tt = t0, critical_list = [], critical_capacity = cap \<rparr>
          = Inr s'"
    and sv: "save_database env (critical_list s') = Some (errs, Some f)"
    by simp_all
  from g have "\<forall>e\<in>set (critical_list s'). unat (winning_col e) \<le> 6"
    by (rule generated_columns) simp
  with sv show "\<forall>v\<in>set (file_vals f). unat v \<le> 6"
    by (rule saved_values)
qed

theorem analyze_position_column_witness:
  "analyze_position tt_zero critical_28
     = (tt_store (tt_store tt_zero 87449037767124 6) 157817781944756 6, 4)
   \<and> can_play critical_28 4 \<and> invariants critical_28
   \<and> move_bit critical_28 4 = 0x80000000
   \<and> non_losing_moves critical_28 AND move_bit critical_28 4 = move_bit critical_28 4
   \<and> generate_positions all_ok critical_28 28
        \<lparr> tt = tt_zero, critical_list = [], critical_capacity = 0 \<rparr>
      = Inr \<lparr> tt = tt_store (tt_store tt_zero 87449037767124 6) 157817781944756 6,
              critical_list = [\<lparr> hash = 0x6A60807A4329, winning_col = 4 \<rparr>],
              critical_capacity = 1000000 \<rparr>
   \<and> save_database all_ok [\<lparr> hash = 0x6A60807A4329, winning_col = 4 \<rparr>]
      = Some ([], Some \<lparr> header = [7, 6, 15, 28, 4, 1, 0, 0], tsize = 2,
                          file_keys = [0, 0x6A60807A], file_vals = [0, 4] \<rparr>)
   \<and> list_all (\<lambda>v. unat v \<le> 6) [0, 4 :: u8]"
proof -
  let ?t = "tt_store (tt_store tt_zero 87449037767124 6) 157817781944756 6"
  let ?s = "\<lparr> tt = ?t, critical_list = [\<lparr> hash = 0x6A60807A4329, winning_col = 4 \<rparr>],
              critical_capacity = 1000000 \<rparr>"
  let ?f = "\<lparr> header = [7, 6, 15, 28, 4, 1, 0, 0], tsize = 2,
              file_keys = [0, 0x6A60807A], file_vals = [0, 4 :: u8] \<rparr>"
  have a: "analyze_position tt_zero critical_28 = (?t, 4)"
    unfolding critical_28_eq by (rule analyze_p28)
  have m: "move_bit critical_28 4 = 0x80000000"
    unfolding critical_28_eq by (simp add: play_eval)
  have sv: "save_database all_ok (critical_list ?s) = Some ([], Some ?f)"
    using save_critical_28 by simp
  note th = analyze_position_column [of tt_zero critical_28 ?t 4 all_ok critical_28 28 tt_zero 0 ?s "[]" ?f]
  from th a critical_28_invariants
  have "can_play critical_28 4"
    and "non_losing_moves critical_28 AND move_bit critical_28 4 = move_bit critical_28 4"
    by simp_all
  moreover from th generate_critical_28 sv have "\<forall>v\<in>set (file_vals ?f). unat v \<le> 6"
    by blast
  then have "list_all (\<lambda>v. unat v \<le> 6) [0, 4 :: u8]"
    by (simp add: list_all_iff)
  ultimately show ?thesis
    using a m critical_28_invariants generate_critical_28 save_critical_28 by simp
qed

section \<open>The window of plies\<close>

lemma reaches_invariants: "reaches p q \<Longrightarrow> invariants p \<Longrightarrow> invariants q"
proof (induction rule: reaches.induct)
  case (reaches_refl p)
  then show ?case by simp
next
  case (reaches_play p q col)
  then have "invariants q" by simp
  moreover from reaches_play.hyps(2) have "col < 7" by (simp add: WIDTH_def)
  ultimately show ?case
    using reaches_play.hyps(3) by (rule invariants_play_col)
qed

lemma invariants_key_ply:
  assumes "invariants q" and "invariants q'" and "position_key q' = position_key q"
  shows "ply q' = ply q"
proof -
  from key_injective_aux [OF assms(2,1,3)] have "mask q' = mask q" by simp
  moreover from assms(1,2) have "int (popcount (mask q)) = ply q" "int (popcount (mask q')) = ply q'"
    by (simp_all add: invariants_def)
  ultimately show ?thesis by simp
qed

text \<open>C7: the window is \<open>[15, 28]\<close>. Every entry a run of the enumerator adds to the buffer
  carries the key of a position it came to whose ply is in the window; when the start
  satisfies the invariants, no position outside the window that satisfies them has the key
  of an added entry. At a position outside the window nothing is added. The enumerator
  stops below a position with \<open>ply \<ge> MAX_PLY\<close> or \<open>can_win_next\<close>, and goes on to the
  playable columns of any other position. Every occupied slot of the file written from the
  buffer, started empty, holds the partial key of such a position in the window.\<close>

theorem entries_inside_window:
  "MIN_PLY = 15 \<and> MAX_PLY = 28
   \<and> (generate_positions env p depth s = Inr s' \<longrightarrow>
        (\<exists>new. critical_list s' = critical_list s @ new
           \<and> list_all (\<lambda>e. \<exists>q. reaches p q \<and> MIN_PLY \<le> ply q \<and> ply q \<le> MAX_PLY
                              \<and> hash e = position_key q
                              \<and> (invariants p \<longrightarrow>
                                   (\<forall>q'. invariants q' \<and> position_key q' = hash e
                                      \<longrightarrow> MIN_PLY \<le> ply q' \<and> ply q' \<le> MAX_PLY))) new))
   \<and> (ply p < MIN_PLY \<or> MAX_PLY < ply p \<longrightarrow> analyze_step env p s = Inr s)
   \<and> (MAX_PLY \<le> ply p \<or> can_win_next p \<longrightarrow>
        generate_positions env p depth s = analyze_step env p s)
   \<and> (ply p < MAX_PLY \<and> \<not> can_win_next p \<longrightarrow>
        generate_positions env p depth s
          = (case analyze_step env p s of
               Inl f \<Rightarrow> Inl f
             | Inr s1 \<Rightarrow> fold (child_step env p depth) [0..<WIDTH] (Inr s1)))
   \<and> (generate_positions env p depth \<lparr> tt = t0, critical_list = [], critical_capacity = cap \<rparr>
          = Inr s'
        \<and> save_database env (critical_list s') = Some (errs, Some f) \<longrightarrow>
        (\<forall>i<length (file_keys f). file_keys f ! i \<noteq> 0 \<longrightarrow>
           (\<exists>q. reaches p q \<and> MIN_PLY \<le> ply q \<and> ply q \<le> MAX_PLY
               \<and> file_keys f ! i = partial_key_of (position_key q))))"
proof -
  have src: "\<exists>q. reaches p q \<and> MIN_PLY \<le> ply q \<and> ply q \<le> MAX_PLY \<and> hash e = position_key q
      \<and> (invariants p \<longrightarrow> (\<forall>q'. invariants q' \<and> position_key q' = hash e
             \<longrightarrow> MIN_PLY \<le> ply q' \<and> ply q' \<le> MAX_PLY))"
    if "recorded p e" for e
  proof -
    from recorded_source [OF that] obtain q where q: "reaches p q" "MIN_PLY \<le> ply q"
      "ply q \<le> MAX_PLY" "hash e = position_key q"
      by auto
    have "MIN_PLY \<le> ply q' \<and> ply q' \<le> MAX_PLY"
      if "invariants p" "invariants q'" "position_key q' = hash e" for q'
    proof -
      from q(1) that(1) have "invariants q" by (rule reaches_invariants)
      then have "ply q' = ply q"
        using that(2,3) q(4) by (intro invariants_key_ply) simp_all
      with q(2,3) show ?thesis by simp
    qed
    with q show ?thesis by blast
  qed
  have ext: "\<exists>new. critical_list u' = critical_list u @ new
      \<and> list_all (\<lambda>e. \<exists>q. reaches p q \<and> MIN_PLY \<le> ply q \<and> ply q \<le> MAX_PLY
            \<and> hash e = position_key q
            \<and> (invariants p \<longrightarrow> (\<forall>q'. invariants q' \<and> position_key q' = hash e
                   \<longrightarrow> MIN_PLY \<le> ply q' \<and> ply q' \<le> MAX_PLY))) new"
    if "generate_positions env p depth u = Inr u'" for u u'
  proof -
    from generate_positions_extends [OF that] obtain new
      where new: "critical_list u' = critical_list u @ new" "list_all (recorded p) new"
      unfolding extends_by_def by blast
    from new(2) src have "list_all (\<lambda>e. \<exists>q. reaches p q \<and> MIN_PLY \<le> ply q \<and> ply q \<le> MAX_PLY
            \<and> hash e = position_key q
            \<and> (invariants p \<longrightarrow> (\<forall>q'. invariants q' \<and> position_key q' = hash e
                   \<longrightarrow> MIN_PLY \<le> ply q' \<and> ply q' \<le> MAX_PLY))) new"
      unfolding list_all_iff by blast
    with new(1) show ?thesis by blast
  qed
  have c1: "MIN_PLY = 15 \<and> MAX_PLY = 28"
    by (simp add: MIN_PLY_def MAX_PLY_def)
  have c3: "analyze_step env p s = Inr s" if "ply p < MIN_PLY \<or> MAX_PLY < ply p"
    using that by (auto simp add: analyze_step_def)
  have c4: "generate_positions env p depth s = analyze_step env p s"
    if "MAX_PLY \<le> ply p \<or> can_win_next p"
    using that by (auto simp add: generate_positions_unfold split: sum.splits)
  have c5: "generate_positions env p depth s
          = (case analyze_step env p s of
               Inl f \<Rightarrow> Inl f
             | Inr s1 \<Rightarrow> fold (child_step env p depth) [0..<WIDTH] (Inr s1))"
    if "ply p < MAX_PLY \<and> \<not> can_win_next p"
    using that by (auto simp add: generate_positions_unfold split: sum.splits)
  have c6: "\<exists>q. reaches p q \<and> MIN_PLY \<le> ply q \<and> ply q \<le> MAX_PLY
               \<and> file_keys f ! i = partial_key_of (position_key q)"
    if g: "generate_positions env p depth \<lparr> tt = t0, critical_list = [], critical_capacity = cap \<rparr>
          = Inr s'"
      and sv: "save_database env (critical_list s') = Some (errs, Some f)"
      and i: "i < length (file_keys f)" "file_keys f ! i \<noteq> 0" for i
  proof -
    from save_database_slots [OF sv] i
    obtain e where e: "e \<in> set (critical_list s')" "file_keys f ! i = partial_key_of (hash e)"
      unfolding slots_from_def by auto
    from generate_positions_extends [OF g] have "list_all (recorded p) (critical_list s')"
      unfolding extends_by_def by auto
    with e(1) have "recorded p e"
      unfolding list_all_iff by blast
    from src [OF this] e(2) show ?thesis by auto
  qed
  from c1 ext c3 c4 c5 c6 show ?thesis by blast
qed

theorem entries_inside_window_witness:
  "generate_positions all_ok critical_28 28 \<lparr> tt = tt_zero, critical_list = [], critical_capacity = 0 \<rparr>
     = Inr \<lparr> tt = tt_store (tt_store tt_zero 87449037767124 6) 157817781944756 6,
             critical_list = [\<lparr> hash = 0x6A60807A4329, winning_col = 4 \<rparr>],
             critical_capacity = 1000000 \<rparr>
   \<and> position_key critical_28 = 0x6A60807A4329
   \<and> invariants critical_28
   \<and> MIN_PLY \<le> ply critical_28 \<and> ply critical_28 \<le> MAX_PLY \<and> MAX_PLY \<le> ply critical_28
   \<and> generate_positions all_ok critical_28 28 \<lparr> tt = tt_zero, critical_list = [], critical_capacity = 0 \<rparr>
       = analyze_step all_ok critical_28 \<lparr> tt = tt_zero, critical_list = [], critical_capacity = 0 \<rparr>
   \<and> save_database all_ok [\<lparr> hash = 0x6A60807A4329, winning_col = 4 \<rparr>]
      = Some ([], Some \<lparr> header = [7, 6, 15, 28, 4, 1, 0, 0], tsize = 2,
                          file_keys = [0, 0x6A60807A], file_vals = [0, 4] \<rparr>)
   \<and> partial_key_of (position_key critical_28) = 0x6A60807A
   \<and> ply empty_position < MIN_PLY \<and> \<not> can_win_next empty_position
   \<and> analyze_step all_ok empty_position \<lparr> tt = tt_zero, critical_list = [], critical_capacity = 0 \<rparr>
       = Inr \<lparr> tt = tt_zero, critical_list = [], critical_capacity = 0 \<rparr>
   \<and> generate_positions all_ok empty_position 0 \<lparr> tt = tt_zero, critical_list = [], critical_capacity = 0 \<rparr>
       = fold (child_step all_ok empty_position 0) [0..<WIDTH]
           (Inr \<lparr> tt = tt_zero, critical_list = [], critical_capacity = 0 \<rparr>)"
proof -
  let ?s0 = "\<lparr> tt = tt_zero, critical_list = [], critical_capacity = 0 \<rparr>"
  have ply28: "ply critical_28 = 28"
    unfolding critical_28_eq by simp
  have w: "MIN_PLY \<le> ply critical_28" "ply critical_28 \<le> MAX_PLY" "MAX_PLY \<le> ply critical_28"
    unfolding ply28 by (simp_all add: MIN_PLY_def MAX_PLY_def)
  have pk: "partial_key_of (position_key critical_28) = 0x6A60807A"
    unfolding key_critical_28 by (simp add: partial_key_of_def)
  have e: "ply empty_position < MIN_PLY" "\<not> can_win_next empty_position"
    by (simp_all add: empty_position_def MIN_PLY_def can_win_next_def win_eval)
  have e': "ply empty_position < MAX_PLY"
    by (simp add: empty_position_def MAX_PLY_def)
  from entries_inside_window [of all_ok critical_28 28 ?s0] w(3)
  have a: "generate_positions all_ok critical_28 28 ?s0 = analyze_step all_ok critical_28 ?s0"
    by blast
  from entries_inside_window [of all_ok empty_position 0 ?s0] e(1)
  have b: "analyze_step all_ok empty_position ?s0 = Inr ?s0"
    by blast
  from entries_inside_window [of all_ok empty_position 0 ?s0] e(2) e'
  have "generate_positions all_ok empty_position 0 ?s0
      = (case analyze_step all_ok empty_position ?s0 of
           Inl f \<Rightarrow> Inl f
         | Inr s1 \<Rightarrow> fold (child_step all_ok empty_position 0) [0..<WIDTH] (Inr s1))"
    by blast
  then have c: "generate_positions all_ok empty_position 0 ?s0
      = fold (child_step all_ok empty_position 0) [0..<WIDTH] (Inr ?s0)"
    unfolding b by simp
  show ?thesis
    using generate_critical_28 key_critical_28 critical_28_invariants w a save_critical_28 pk e b c
    by blast
qed

section \<open>Obvious moves\<close>

text \<open>A playable column whose stone gives the stones \<open>x\<close> four in a line lands on a cell
  that the line detector reports for \<open>x\<close>.\<close>

lemma landing_cell_wins:
  assumes inv: "invariants p" and c: "c < 7" and play: "can_play p c"
    and sub: "\<And>j. bit x j \<Longrightarrow> bit (mask p) j"
    and four: "has_four (x OR move_bit p c)" and none: "\<not> has_four x"
  shows "\<exists>k. move_bit p c = 2 ^ k \<and> bit ((mask p + bottom_mask) AND board_mask) k
            \<and> bit (compute_winning_positions x (mask p)) k"
proof -
  obtain k where k: "move_bit p c = 2 ^ k" "bit ((mask p + bottom_mask) AND board_mask) k"
    "board_cell k" "\<not> bit (mask p) k"
    and top: "\<forall>j. k < j \<longrightarrow> j div 7 = k div 7 \<longrightarrow> \<not> bit (mask p) j"
    using inv c play by (rule landing_possible)
  from four obtain l where l: "l \<in> set four_lines" "\<forall>j\<in>set l. bit (x OR 2 ^ k) j"
    unfolding has_four_iff k(1) by blast
  then have full: "\<forall>j\<in>set l. j = k \<or> bit x j"
    by (auto simp add: bit_or_iff bit_exp_u64)
  have kl: "k \<in> set l"
  proof (rule ccontr)
    assume "k \<notin> set l"
    with full have "\<forall>j\<in>set l. bit x j" by auto
    with l(1) none show False
      unfolding has_four_iff by blast
  qed
  have "\<not> bit x j" if "k < j" "j div 7 = k div 7" for j
    using top that sub [of j] by blast
  then have "bit (compute_winning_positions x (mask p)) k"
    using l(1) kl full
    by (intro winning_cell_complete [of "mask p" k x l]
        invariants_board [OF inv] k(3) k(4)) blast+
  with k(1,2) show ?thesis by blast
qed

lemma opponent_in_mask:
  assumes "invariants p" and "bit (current p XOR mask p) j"
  shows "bit (mask p) j"
  using assms(2) current_in_mask [OF assms(1), of j] by (auto simp add: bit_xor_iff)

lemma single_bit:
  fixes w :: u64
  assumes "w AND (w - 1) = 0" and "bit w j" and "bit w k"
  shows "j = k"
proof -
  from assms(2) have "w \<noteq> 0"
    unfolding u64_eq_0_iff by blast
  then obtain k0 where k0: "\<forall>i. bit (w AND (w - 1)) i \<longleftrightarrow> bit w i \<and> i \<noteq> k0"
    using clear_lowest_bit [of w] by blast
  have "i = k0" if "bit w i" for i
    using k0 that assms(1) by (metis bit_0_eq bot_apply bot_bool_def)
  with assms(2,3) show ?thesis by blast
qed

text \<open>With a cell of the opponent to block, the only bit \<open>non_losing_moves\<close> can keep is
  that cell.\<close>

lemma non_losing_forced:
  assumes k: "bit ((mask p + bottom_mask) AND board_mask) k" "bit (opponent_winning_positions p) k"
    and j: "bit (non_losing_moves p) j"
  shows "j = k"
proof -
  define forced where "forced = ((mask p + bottom_mask) AND board_mask) AND opponent_winning_positions p"
  from k have fk: "bit forced k"
    by (simp add: forced_def bit_and_iff)
  then have nz: "forced \<noteq> 0"
    unfolding u64_eq_0_iff by blast
  have nl: "non_losing_moves p =
      (if forced AND (forced - 1) \<noteq> 0 then 0
       else forced AND NOT (drop_bit 1 (opponent_winning_positions p)))"
    using nz by (simp add: non_losing_moves_def Let_def forced_def)
  show ?thesis
  proof (cases "forced AND (forced - 1) = 0")
    case False
    with nl j show ?thesis by simp
  next
    case True
    with nl j have "bit forced j"
      by (simp add: bit_and_iff)
    with True show ?thesis
      using fk by (rule single_bit)
  qed
qed

lemma forced_block_rejected:
  assumes inv: "invariants p"
    and k: "bit ((mask p + bottom_mask) AND board_mask) k" "bit (opponent_winning_positions p) k"
  shows "snd (analyze_position t p) = - 1"
proof (rule ccontr)
  assume n: "snd (analyze_position t p) \<noteq> - 1"
  obtain t' r where a: "analyze_position t p = (t', r)"
    by (cases "analyze_position t p")
  with n analyze_position_result [OF a] obtain c where c: "c < WIDTH"
    "non_losing_moves p AND column_mask_col c \<noteq> 0" "\<not> is_obvious_move p c"
    by auto
  from c(1) have c7: "c < 7" by (simp add: WIDTH_def)
  note col = non_losing_column [OF inv c7 c(2)]
  from col(2) obtain j where j: "bit (move_bit p c) j"
    unfolding u64_eq_0_iff by blast
  from col(4) j have "bit (non_losing_moves p) j"
    by (metis bit_and_iff)
  with k have "j = k" by (rule non_losing_forced)
  with j k(2) have "bit (opponent_winning_positions p AND move_bit p c) k"
    by (simp add: bit_and_iff)
  then have "opponent_winning_positions p AND move_bit p c \<noteq> 0"
    unfolding u64_eq_0_iff by blast
  then have "is_obvious_move p c"
    by (simp add: is_obvious_move_def Let_def)
  with c(3) show False by simp
qed

lemma rejected_no_entry:
  assumes "snd (analyze_position (tt s) p) = - 1"
  shows "\<exists>s'. analyze_step env p s = Inr s' \<and> critical_list s' = critical_list s"
  using assms by (auto simp add: analyze_step_def Let_def split: prod.splits)

text \<open>C6: in a position that satisfies the invariants and has no four in a line on the
  board yet, if some playable column's stone would complete four in a line for the side to
  move (a win in one), or its drop cell would complete four in a line for the opponent (a
  forced block), then the classifier returns \<open>- 1\<close> whatever the table holds, and the
  enumerator's step at the position adds no entry to the buffer. This holds in particular
  when that column is the unique winning move.\<close>

theorem obvious_move_rejected:
  "invariants p \<Longrightarrow> c < WIDTH \<Longrightarrow> can_play p c
     \<Longrightarrow> \<not> has_four (current p) \<Longrightarrow> \<not> has_four (current p XOR mask p)
     \<Longrightarrow> has_four (current p OR move_bit p c) \<or> has_four ((current p XOR mask p) OR move_bit p c)
     \<Longrightarrow> snd (analyze_position t p) = - 1
         \<and> (\<exists>s'. analyze_step env p s = Inr s' \<and> critical_list s' = critical_list s)"
proof -
  assume inv: "invariants p" and c: "c < WIDTH" and play: "can_play p c"
    and mine: "\<not> has_four (current p)" and theirs: "\<not> has_four (current p XOR mask p)"
    and four: "has_four (current p OR move_bit p c) \<or> has_four ((current p XOR mask p) OR move_bit p c)"
  from c have c7: "c < 7" by (simp add: WIDTH_def)
  have r: "snd (analyze_position t' p) = - 1" for t'
  proof (cases "has_four (current p OR move_bit p c)")
    case True
    with inv c play have "can_win_next p"
      using mine by (rule has_four_can_win_next)
    then show ?thesis
      by (simp add: analyze_position_def)
  next
    case False
    with four have f: "has_four ((current p XOR mask p) OR move_bit p c)" by simp
    have "\<exists>k. move_bit p c = 2 ^ k \<and> bit ((mask p + bottom_mask) AND board_mask) k
        \<and> bit (compute_winning_positions (current p XOR mask p) (mask p)) k"
      using inv c7 play opponent_in_mask [OF inv] f theirs by (rule landing_cell_wins)
    then obtain k where "bit ((mask p + bottom_mask) AND board_mask) k"
      "bit (opponent_winning_positions p) k"
      unfolding opponent_winning_positions_def by blast
    with inv show ?thesis by (rule forced_block_rejected)
  qed
  from r [of t] rejected_no_entry [OF r [of "tt s"]] show ?thesis by simp
qed

lemma forced_block_16_eq:
  "forced_block_16 = \<lparr> current = 69000511622, mask = 244559429767, ply = 16 \<rparr>"
  unfolding forced_block_16_def by (simp add: play_eval)

lemma forced_block_16_reachable: "reachable forced_block_16"
  unfolding forced_block_16_def
  by (intro reachable_play reachable_empty) (simp_all add: play_eval WIDTH_def)

lemma forced_block_16_invariants: "invariants forced_block_16"
  using forced_block_16_reachable by (rule reachable_invariants_aux)

lemma forced_block_16_no_four:
  "\<not> has_four (current forced_block_16)"
  "\<not> has_four (current forced_block_16 XOR mask forced_block_16)"
  unfolding forced_block_16_eq
  by (simp_all add: has_four_def four_lines_def cell_eq WIDTH_def HEIGHT_def upt_rec)

lemma forced_block_16_threat:
  "has_four ((current forced_block_16 XOR mask forced_block_16) OR move_bit forced_block_16 4)"
proof -
  have "[29, 29 + 1, 29 + 2 * 1, 29 + 3 * 1] \<in> set four_lines"
    by (rule line_of_cells) (simp_all add: board_cell_def)
  then have l: "[29, 30, 31, 32] \<in> set four_lines"
    by simp
  have "(current forced_block_16 XOR mask forced_block_16) OR move_bit forced_block_16 4
      = 179853885441"
    unfolding forced_block_16_eq by (simp add: play_eval)
  moreover have "has_four 179853885441"
    unfolding has_four_iff
    by (rule bexI [OF _ l]) (simp add: bit_numeral_simps)
  ultimately show ?thesis by simp
qed

theorem obvious_move_rejected_witness:
  "invariants forced_block_16 \<and> 4 < WIDTH \<and> can_play forced_block_16 4
   \<and> \<not> has_four (current forced_block_16)
   \<and> \<not> has_four (current forced_block_16 XOR mask forced_block_16)
   \<and> has_four ((current forced_block_16 XOR mask forced_block_16) OR move_bit forced_block_16 4)
   \<and> MIN_PLY \<le> ply forced_block_16 \<and> ply forced_block_16 \<le> MAX_PLY
   \<and> \<not> can_win_next forced_block_16
   \<and> non_losing_moves forced_block_16 = move_bit forced_block_16 4
   \<and> snd (analyze_position tt_zero forced_block_16) = - 1
   \<and> (\<exists>s'. analyze_step all_ok forced_block_16
               \<lparr> tt = tt_zero, critical_list = [], critical_capacity = 0 \<rparr> = Inr s'
            \<and> critical_list s' = [])"
proof -
  have w: "4 < WIDTH" by (simp add: WIDTH_def)
  have play: "can_play forced_block_16 4"
    unfolding forced_block_16_eq by (simp add: play_eval)
  have win: "MIN_PLY \<le> ply forced_block_16" "ply forced_block_16 \<le> MAX_PLY"
    unfolding forced_block_16_eq by (simp_all add: MIN_PLY_def MAX_PLY_def)
  have cwn: "\<not> can_win_next forced_block_16"
    unfolding forced_block_16_eq by (simp add: can_win_next_def win_eval)
  have nl: "non_losing_moves forced_block_16 = move_bit forced_block_16 4"
    unfolding forced_block_16_eq
    by (simp add: non_losing_moves_def opponent_winning_positions_def win_eval play_eval)
  from obvious_move_rejected [OF forced_block_16_invariants w play forced_block_16_no_four,
      of tt_zero all_ok "\<lparr> tt = tt_zero, critical_list = [], critical_capacity = 0 \<rparr>"]
    forced_block_16_threat
  have "snd (analyze_position tt_zero forced_block_16) = - 1
    \<and> (\<exists>s'. analyze_step all_ok forced_block_16
               \<lparr> tt = tt_zero, critical_list = [], critical_capacity = 0 \<rparr> = Inr s'
            \<and> critical_list s' = [])"
    by simp
  with forced_block_16_invariants w play forced_block_16_no_four forced_block_16_threat win cwn nl
  show ?thesis by blast
qed

end
